theory Spec2Isabelle
  imports Complex_Main
begin

section \<open>Data model of the maze store (\<open>useMaze\<close>)\<close>

text \<open>
  The TypeScript unions \<open>Algorithm\<close>, \<open>GamePhase\<close>, \<open>Difficulty\<close> and
  \<open>VisualizationMode\<close> are enumerations. The interfaces \<open>Position\<close> and \<open>MazeCell\<close>
  both have fields called \<open>x\<close> and \<open>z\<close>; here they are \<open>px\<close>, \<open>pz\<close> for a position and
  \<open>cx\<close>, \<open>cz\<close> for a cell, so that the field names stay apart from variables.
  Coordinates are JavaScript numbers that only ever hold integers: they are \<open>int\<close>.
\<close>

datatype Algorithm = Astar | Bfs | Dfs | Ucs | Ids

datatype GamePhase = Menu | Solving | Visualizing | Moving | Completed

datatype Difficulty = Easy | Medium | Hard

datatype VisualizationMode = Instant | Step

record Position =
  px :: int
  pz :: int

record MazeCell =
  cx :: int
  cz :: int
  isWall :: bool
  isStart :: bool
  isEnd :: bool
  isPath :: bool
  isVisited :: bool

record AlgorithmStats =
  solveTimeMs :: real
  nodesExplored :: int
  pathLength :: int

type_synonym maze = "MazeCell list list"

text \<open>
  The only run-time failure of the store is the \<open>TypeError\<close> that JavaScript throws when a
  property of \<open>undefined\<close> is read, written or destructured.
\<close>

datatype error = TypeError

definition bindE :: "error + 'a \<Rightarrow> ('a \<Rightarrow> error + 'b) \<Rightarrow> error + 'b" where
  "bindE r f = (case r of Inl e \<Rightarrow> Inl e | Inr v \<Rightarrow> f v)"

subsection \<open>Grid access\<close>

text \<open>
  \<open>maze[z]\<close> is \<open>undefined\<close> unless \<open>z\<close> is an index of the outer array, and likewise for
  \<open>maze[z][x]\<close>; a row (an array) and a cell (an object) are always truthy. So the test
  \<open>maze[z] && maze[z][x]\<close> is \<open>in_grid\<close>.
\<close>

definition in_grid :: "maze \<Rightarrow> int \<Rightarrow> int \<Rightarrow> bool" where
  "in_grid m zz xx \<longleftrightarrow> 0 \<le> zz \<and> nat zz < length m \<and> 0 \<le> xx \<and> nat xx < length (m ! nat zz)"

definition cell_at :: "maze \<Rightarrow> int \<Rightarrow> int \<Rightarrow> MazeCell" where
  "cell_at m zz xx = m ! nat zz ! nat xx"

definition upd_cell :: "maze \<Rightarrow> int \<Rightarrow> int \<Rightarrow> (MazeCell \<Rightarrow> MazeCell) \<Rightarrow> maze" where
  "upd_cell m zz xx f =
     (if in_grid m zz xx
      then m[nat zz := (m ! nat zz)[nat xx := f (m ! nat zz ! nat xx)]]
      else m)"

text \<open>
  An unguarded assignment \<open>maze[z][x].field = v\<close> throws when the cell does not exist.
\<close>

definition modify_cell :: "maze \<Rightarrow> int \<Rightarrow> int \<Rightarrow> (MazeCell \<Rightarrow> MazeCell) \<Rightarrow> error + maze" where
  "modify_cell m zz xx f = (if in_grid m zz xx then Inr (upd_cell m zz xx f) else Inl TypeError)"

text \<open>The nested initialisation loops of both generators.\<close>

definition init_grid :: "int \<Rightarrow> int \<Rightarrow> bool \<Rightarrow> maze" where
  "init_grid width height wall =
     map (\<lambda>zz. map (\<lambda>xx. \<lparr>cx = int xx, cz = int zz, isWall = wall, isStart = False,
                          isEnd = False, isPath = False, isVisited = False\<rparr>)
                    [0..<nat width])
         [0..<nat height]"

text \<open>The number of wall cells of a grid: what the recursive carving uses up.\<close>

definition row_walls :: "MazeCell list \<Rightarrow> nat" where
  "row_walls row = sum_list (map (\<lambda>c. if isWall c then 1 else 0) row)"

definition wall_count :: "maze \<Rightarrow> nat" where
  "wall_count m = sum_list (map row_walls m)"

section \<open>The random generator (\<open>generateRandomMaze\<close>)\<close>

text \<open>
  \<open>Math.random()\<close> is an oracle: the run is given a sequence \<open>rnd\<close> of naturals and a
  counter of the draws made so far. \<open>Math.floor(Math.random() * (i + 1))\<close> is some integer
  of \<open>0..i\<close>, and every one of them is possible: the draw is \<open>rnd k mod (i + 1)\<close>.
  Every statement below holds for all \<open>rnd\<close>. The depth of the recursion of \<open>carve\<close> is
  not bounded in the model: the call stack of the JavaScript engine is not part of it.
\<close>

definition directions :: "(int \<times> int) list" where
  "directions = [(0, -2), (0, 2), (-2, 0), (2, 0)]"

fun shuffle :: "(nat \<Rightarrow> nat) \<Rightarrow> nat \<Rightarrow> nat \<Rightarrow> 'a list \<Rightarrow> 'a list" where
  "shuffle rnd 0 k ds = ds"
| "shuffle rnd (Suc i) k ds =
     (let j = rnd k mod (Suc i + 1)
      in shuffle rnd i (k + 1) (ds[Suc i := ds ! j, j := ds ! Suc i]))"

function carve :: "(nat \<Rightarrow> nat) \<Rightarrow> int \<Rightarrow> int \<Rightarrow> int \<Rightarrow> int \<Rightarrow> maze \<times> nat \<Rightarrow> error + maze \<times> nat"
  and carve_loop :: "(nat \<Rightarrow> nat) \<Rightarrow> int \<Rightarrow> int \<Rightarrow> int \<Rightarrow> int \<Rightarrow> (int \<times> int) list \<Rightarrow> maze \<times> nat
                     \<Rightarrow> error + maze \<times> nat"
where
  "carve rnd width height xx zz (m, k) =
     (if in_grid m zz xx
      then carve_loop rnd width height xx zz (shuffle rnd 3 k directions)
             (upd_cell m zz xx (\<lambda>c. c\<lparr>isWall := False\<rparr>), k + 3)
      else Inl TypeError)"
| "carve_loop rnd width height xx zz [] s = Inr s"
| "carve_loop rnd width height xx zz ((dx, dz) # ds) (m, k) =
     (let newX = xx + dx; newZ = zz + dz
      in if newX > 0 \<and> newX < width - 1 \<and> newZ > 0 \<and> newZ < height - 1
         then (if \<not> in_grid m newZ newX then Inl TypeError
               else if isWall (cell_at m newZ newX)
               then (case modify_cell m (zz + dz div 2) (xx + dx div 2) (\<lambda>c. c\<lparr>isWall := False\<rparr>) of
                       Inl e \<Rightarrow> Inl e
                     | Inr m1 \<Rightarrow>
                         (case carve rnd width height newX newZ (m1, k) of
                            Inl e \<Rightarrow> Inl e
                          | Inr s \<Rightarrow> carve_loop rnd width height xx zz ds s))
               else carve_loop rnd width height xx zz ds (m, k))
         else carve_loop rnd width height xx zz ds (m, k))"
  by pat_completeness auto

subsection \<open>Termination of the carving\<close>

text \<open>
  Every recursive call of \<open>carve\<close> is made on a cell that is still a wall, and opens it:
  the number of walls goes down. The loop continues on the grid that the inner call returns,
  which has no more walls than before (a fact about \<open>carve\<close> itself, proved on its
  domain first).
\<close>


lemma row_walls_open:
  "i < length row \<Longrightarrow> row_walls (row[i := (row ! i)\<lparr>isWall := False\<rparr>]) = row_walls row - (if isWall (row ! i) then 1 else 0)"
  unfolding row_walls_def
  by (simp add: map_update sum_list_update)

lemma row_walls_pos: "i < length row \<Longrightarrow> isWall (row ! i) \<Longrightarrow> 0 < row_walls row"
  by (induction row arbitrary: i) (auto simp: row_walls_def nth_Cons split: nat.splits)

lemma wall_count_row_le: "i < length m \<Longrightarrow> row_walls (m ! i) \<le> wall_count m"
  unfolding wall_count_def 
  using member_le_sum_list[of "map row_walls m ! i" "map row_walls m"] by (simp del: nth_map) simp

lemma wall_count_open:
  assumes "in_grid m zz xx"
  shows "wall_count (upd_cell m zz xx (\<lambda>c. c\<lparr>isWall := False\<rparr>))
     = wall_count m - (if isWall (cell_at m zz xx) then 1 else 0)"
proof -
  from assms have z: "nat zz < length m" and x: "nat xx < length (m ! nat zz)"
    by (simp_all add: in_grid_def)
  have "wall_count (upd_cell m zz xx (\<lambda>c. c\<lparr>isWall := False\<rparr>))
      = sum_list ((map row_walls m)[nat zz := row_walls ((m ! nat zz)[nat xx := (m ! nat zz ! nat xx)\<lparr>isWall := False\<rparr>])])"
    using assms by (simp add: upd_cell_def wall_count_def map_update)
  also have "\<dots> = wall_count m + row_walls ((m ! nat zz)[nat xx := (m ! nat zz ! nat xx)\<lparr>isWall := False\<rparr>]) - row_walls (m ! nat zz)"
    using z by (simp add: sum_list_update wall_count_def)
  also have "\<dots> = wall_count m - (if isWall (cell_at m zz xx) then 1 else 0)"
    using wall_count_row_le[OF z] row_walls_pos[OF x] x
    by (auto simp add: row_walls_open cell_at_def)
  finally show ?thesis .
qed

lemma wall_count_pos: "in_grid m zz xx \<Longrightarrow> isWall (cell_at m zz xx) \<Longrightarrow> 0 < wall_count m"
  using wall_count_row_le[of "nat zz" m] row_walls_pos[of "nat xx" "m ! nat zz"]
  by (simp add: in_grid_def cell_at_def)

lemma wall_count_open_le: "wall_count (upd_cell m zz xx (\<lambda>c. c\<lparr>isWall := False\<rparr>)) \<le> wall_count m"
proof (cases "in_grid m zz xx")
  case True
  then show ?thesis using wall_count_open[OF True] by simp
next
  case False
  then show ?thesis by (simp add: upd_cell_def)
qed

lemma wall_count_open_less:
  "in_grid m zz xx \<Longrightarrow> isWall (cell_at m zz xx) \<Longrightarrow>
   wall_count (upd_cell m zz xx (\<lambda>c. c\<lparr>isWall := False\<rparr>)) < wall_count m"
  using wall_count_pos[of m zz xx] by (simp add: wall_count_open)

lemma in_grid_upd [simp]: "in_grid (upd_cell m a b f) zz xx = in_grid m zz xx"
  by (auto simp: in_grid_def upd_cell_def nth_list_update)

lemma cell_at_upd:
  "in_grid m zz xx \<Longrightarrow>
   cell_at (upd_cell m a b f) zz xx = (if a = zz \<and> b = xx then f (cell_at m zz xx) else cell_at m zz xx)"
  by (auto simp: in_grid_def upd_cell_def cell_at_def nth_list_update)

lemma wall_count_open2_less:
  assumes "in_grid m zz xx" "isWall (cell_at m zz xx)"
  shows "wall_count (upd_cell (upd_cell m a b (\<lambda>c. c\<lparr>isWall := False\<rparr>)) zz xx (\<lambda>c. c\<lparr>isWall := False\<rparr>))
           < wall_count m"
proof (cases "a = zz \<and> b = xx")
  case True
  have "wall_count (upd_cell (upd_cell m a b (\<lambda>c. c\<lparr>isWall := False\<rparr>)) zz xx (\<lambda>c. c\<lparr>isWall := False\<rparr>))
          \<le> wall_count (upd_cell m zz xx (\<lambda>c. c\<lparr>isWall := False\<rparr>))"
    using True by (simp add: wall_count_open_le)
  then show ?thesis using wall_count_open_less[OF assms] by simp
next
  case False
  let ?m1 = "upd_cell m a b (\<lambda>c. c\<lparr>isWall := False\<rparr>)"
  have "in_grid ?m1 zz xx" "isWall (cell_at ?m1 zz xx)"
    using assms False by (auto simp: cell_at_upd)
  from wall_count_open_less[OF this] wall_count_open_le[of m a b] show ?thesis by simp
qed

lemma carve_wall_count_partial:
  "carve_carve_loop_dom (Inl (rnd, w, h, xx, zz, s)) \<Longrightarrow>
     (\<forall>s'. carve rnd w h xx zz s = Inr s' \<longrightarrow>
        wall_count (fst s') \<le> wall_count (upd_cell (fst s) zz xx (\<lambda>c. c\<lparr>isWall := False\<rparr>)))"
  "carve_carve_loop_dom (Inr (rnd, w, h, xx, zz, ds, s)) \<Longrightarrow>
     (\<forall>s'. carve_loop rnd w h xx zz ds s = Inr s' \<longrightarrow> wall_count (fst s') \<le> wall_count (fst s))"
proof (induction rnd w h xx zz s and rnd w h xx zz ds s rule: carve_carve_loop.pinduct)
  case (1 rnd width height xx zz m k)
  then show ?case by (auto simp: carve.psimps split: if_splits)
next
  case (2 rnd width height xx zz s)
  then show ?case by (simp add: carve_loop.psimps)
next
  case (3 rnd width height xx zz dx dz ds m k)
  show ?case
  proof (intro allI impI)
    fix s' assume r: "carve_loop rnd width height xx zz ((dx, dz) # ds) (m, k) = Inr s'"
    let ?nx = "xx + dx" and ?nz = "zz + dz"
    show "wall_count (fst s') \<le> wall_count (fst (m, k))"
    proof (cases "0 < ?nx \<and> ?nx < width - 1 \<and> 0 < ?nz \<and> ?nz < height - 1")
      case False
      with r "3.hyps" have "carve_loop rnd width height xx zz ds (m, k) = Inr s'"
        by (simp add: carve_loop.psimps Let_def)
      with "3.IH"(4)[OF refl refl False] show ?thesis by simp
    next
      case inr: True
      show ?thesis
      proof (cases "in_grid m ?nz ?nx")
        case False
        with r "3.hyps" inr show ?thesis by (simp add: carve_loop.psimps Let_def)
      next
        case ing: True
        show ?thesis
        proof (cases "isWall (cell_at m ?nz ?nx)")
          case False
          with r "3.hyps" inr ing have "carve_loop rnd width height xx zz ds (m, k) = Inr s'"
            by (simp add: carve_loop.psimps Let_def)
          with "3.IH"(3)[OF refl refl inr _ False] ing show ?thesis by simp
        next
          case wl: True
          from r "3.hyps" inr ing wl obtain m1 s1 where
            m1: "modify_cell m (zz + dz div 2) (xx + dx div 2) (\<lambda>c. c\<lparr>isWall := False\<rparr>) = Inr m1"
            and s1: "carve rnd width height ?nx ?nz (m1, k) = Inr s1"
            and s': "carve_loop rnd width height xx zz ds s1 = Inr s'"
            by (auto simp: carve_loop.psimps Let_def split: sum.splits)
          have ing': "\<not> \<not> in_grid m ?nz ?nx" using ing by simp
          from "3.IH"(1)[OF refl refl inr ing' wl m1] s1
          have a: "wall_count (fst s1) \<le> wall_count (upd_cell m1 ?nz ?nx (\<lambda>c. c\<lparr>isWall := False\<rparr>))" by simp
          from "3.IH"(2)[OF refl refl inr ing' wl m1 s1] s'
          have b: "wall_count (fst s') \<le> wall_count (fst s1)" by simp
          from m1 have "m1 = upd_cell m (zz + dz div 2) (xx + dx div 2) (\<lambda>c. c\<lparr>isWall := False\<rparr>)"
            by (simp add: modify_cell_def split: if_splits)
          with wall_count_open2_less[OF ing wl, of "zz + dz div 2" "xx + dx div 2"] a b
          show ?thesis by simp
        qed
      qed
    qed
  qed
qed

termination carve
proof (relation "inv_image (measure id <*lex*> measure id)
         (\<lambda>v. case v of
            Inl (rnd, w, h, xx, zz, m, k) \<Rightarrow>
              (wall_count (upd_cell m zz xx (\<lambda>c. c\<lparr>isWall := False\<rparr>)),
               Suc (length (shuffle rnd 3 k directions)))
          | Inr (rnd, w, h, xx, zz, ds, m, k) \<Rightarrow> (wall_count m, length ds))", goal_cases)
  case 1
  then show ?case by (intro wf_inv_image wf_lex_prod wf_measure)
next
  case (2 rnd width height xx zz m k)
  then show ?case by simp
next
  case (3 rnd width height xx zz dx dz ds m k x xa x2)
  then show ?case
    using wall_count_open2_less[of m xa x "zz + dz div 2" "xx + dx div 2"]
    by (auto simp: modify_cell_def split: if_splits)
next
  case (4 rnd width height xx zz dx dz ds m k x xa x2 x2a)
  then show ?case
    using carve_wall_count_partial(1)[of rnd width height x xa "(x2, k)"]
      wall_count_open2_less[of m xa x "zz + dz div 2" "xx + dx div 2"]
    by (cases x2a) (auto simp: modify_cell_def split: if_splits)
next
  case (5 rnd width height xx zz dx dz ds m k x xa)
  then show ?case by simp
next
  case (6 rnd width height xx zz dx dz ds m k x xa)
  then show ?case by simp
qed


subsection \<open>The generator\<close>

text \<open>
  Both generators return the grid with its start and end; the preset loader adds the
  dimensions of the catalog entry.
\<close>

record RandomMaze =
  r_maze :: maze
  r_start :: Position
  r_end :: Position

record PresetMaze = RandomMaze +
  r_width :: int
  r_height :: int

definition generateRandomMaze :: "(nat \<Rightarrow> nat) \<Rightarrow> int \<Rightarrow> int \<Rightarrow> error + RandomMaze" where
  "generateRandomMaze rnd width height =
     (let maze0 = init_grid width height True;
          start = \<lparr>px = 1, pz = 1\<rparr>;
          endp = \<lparr>px = width - 2, pz = height - 2\<rparr>
      in bindE (carve rnd width height 1 1 (maze0, 0)) (\<lambda>(m1, k).
         bindE (modify_cell m1 (pz start) (px start) (\<lambda>c. c\<lparr>isStart := True\<rparr>)) (\<lambda>m2.
         bindE (modify_cell m2 (pz start) (px start) (\<lambda>c. c\<lparr>isWall := False\<rparr>)) (\<lambda>m3.
         bindE (modify_cell m3 (pz endp) (px endp) (\<lambda>c. c\<lparr>isEnd := True\<rparr>)) (\<lambda>m4.
         bindE (modify_cell m4 (pz endp) (px endp) (\<lambda>c. c\<lparr>isWall := False\<rparr>)) (\<lambda>m5.
         let m6 = (if in_grid m5 (pz endp - 1) (px endp)
                   then upd_cell m5 (pz endp - 1) (px endp) (\<lambda>c. c\<lparr>isWall := False\<rparr>)
                   else m5);
             m7 = (if in_grid m6 (pz endp) (px endp - 1)
                   then upd_cell m6 (pz endp) (px endp - 1) (\<lambda>c. c\<lparr>isWall := False\<rparr>)
                   else m6)
         in Inr \<lparr>r_maze = m7, r_start = start, r_end = endp\<rparr>))))))"

section \<open>The preset loader (\<open>createPresetMaze\<close>)\<close>

text \<open>An entry of \<open>PRESET_MAZES\<close>; each wall is the pair \<open>[z, x]\<close> of the source.\<close>

record Preset =
  p_width :: int
  p_height :: int
  p_walls :: "(int \<times> int) list"

definition PRESET_MAZES :: "Preset list" where
  "PRESET_MAZES =
   [\<lparr>p_width = 15, p_height = 15, p_walls =
      [(2, 1), (2, 2), (2, 3), (2, 5), (2, 6), (2, 7), (2, 9), (2, 10), (2, 11),
       (4, 3), (4, 4), (4, 5), (4, 7), (4, 8), (4, 9), (4, 11), (4, 12), (4, 13),
       (5, 3), (5, 9),
       (6, 1), (6, 3), (6, 5), (6, 6), (6, 7), (6, 9), (6, 11),
       (7, 5), (7, 11),
       (8, 1), (8, 2), (8, 3), (8, 5), (8, 7), (8, 8), (8, 9), (8, 11), (8, 12), (8, 13),
       (9, 7),
       (10, 1), (10, 2), (10, 3), (10, 5), (10, 6), (10, 7), (10, 9), (10, 10), (10, 11),
       (11, 3), (11, 9),
       (12, 3), (12, 5), (12, 6), (12, 7), (12, 9), (12, 11), (12, 12), (12, 13)]\<rparr>,
    \<lparr>p_width = 15, p_height = 15, p_walls =
      [(2, 2), (2, 4), (2, 6), (2, 8), (2, 10), (2, 12),
       (3, 2), (3, 6), (3, 10),
       (4, 2), (4, 4), (4, 6), (4, 8), (4, 10), (4, 12),
       (5, 4), (5, 8), (5, 12),
       (6, 2), (6, 4), (6, 6), (6, 8), (6, 10), (6, 12),
       (7, 2), (7, 6), (7, 10),
       (8, 2), (8, 4), (8, 6), (8, 8), (8, 10), (8, 12),
       (9, 4), (9, 8), (9, 12),
       (10, 2), (10, 4), (10, 6), (10, 8), (10, 10), (10, 12),
       (11, 2), (11, 6), (11, 10),
       (12, 2), (12, 4), (12, 6), (12, 8), (12, 10), (12, 12)]\<rparr>,
    \<lparr>p_width = 15, p_height = 15, p_walls =
      [(1, 7), (2, 7), (3, 7), (4, 7), (5, 7),
       (7, 1), (7, 2), (7, 3), (7, 4), (7, 5), (7, 9), (7, 10), (7, 11), (7, 12), (7, 13),
       (9, 7), (10, 7), (11, 7), (12, 7), (13, 7),
       (3, 3), (3, 11), (11, 3), (11, 11),
       (4, 3), (4, 11), (10, 3), (10, 11),
       (3, 4), (3, 10), (11, 4), (11, 10)]\<rparr>]"

text \<open>
  JavaScript's \<open>%\<close> is the remainder of the truncated division: it has the sign of the
  dividend, so \<open>-1 % 3\<close> is \<open>-1\<close>. An array read at an index that is not one of
  \<open>0..length-1\<close> gives \<open>undefined\<close>.
\<close>

definition js_rem :: "int \<Rightarrow> int \<Rightarrow> int" where
  "js_rem a b = (if a < 0 then - ((- a) mod \<bar>b\<bar>) else a mod \<bar>b\<bar>)"

definition array_get :: "'a list \<Rightarrow> int \<Rightarrow> 'a option" where
  "array_get xs i = (if 0 \<le> i \<and> nat i < length xs then Some (xs ! nat i) else None)"

fun foldE :: "('a \<Rightarrow> 'b \<Rightarrow> error + 'b) \<Rightarrow> 'a list \<Rightarrow> 'b \<Rightarrow> error + 'b" where
  "foldE f [] s = Inr s"
| "foldE f (a # as) s = (case f a s of Inl e \<Rightarrow> Inl e | Inr s' \<Rightarrow> foldE f as s')"

text \<open>The two loops that lay the boundary ring.\<close>

definition lay_ring :: "int \<Rightarrow> int \<Rightarrow> maze \<Rightarrow> error + maze" where
  "lay_ring width height m =
     bindE (foldE (\<lambda>xx m1. bindE (modify_cell m1 0 (int xx) (\<lambda>c. c\<lparr>isWall := True\<rparr>))
                     (\<lambda>m2. modify_cell m2 (height - 1) (int xx) (\<lambda>c. c\<lparr>isWall := True\<rparr>)))
              [0..<nat width] m)
       (foldE (\<lambda>zz m1. bindE (modify_cell m1 (int zz) 0 (\<lambda>c. c\<lparr>isWall := True\<rparr>))
                     (\<lambda>m2. modify_cell m2 (int zz) (width - 1) (\<lambda>c. c\<lparr>isWall := True\<rparr>)))
              [0..<nat height])"

text \<open>
  \<open>walls.forEach(([z, x]) => { if (z < height && x < width) maze[z][x].isWall = true; })\<close>:
  the guard tests the upper bounds only.
\<close>

definition lay_walls :: "(int \<times> int) list \<Rightarrow> int \<Rightarrow> int \<Rightarrow> maze \<Rightarrow> error + maze" where
  "lay_walls walls width height m =
     foldE (\<lambda>(zz, xx) m1. if zz < height \<and> xx < width
                           then modify_cell m1 zz xx (\<lambda>c. c\<lparr>isWall := True\<rparr>)
                           else Inr m1)
       walls m"

definition build_preset :: "Preset \<Rightarrow> error + PresetMaze" where
  "build_preset preset =
     (let width = p_width preset; height = p_height preset; walls = p_walls preset;
          start = \<lparr>px = 1, pz = 1\<rparr>;
          endp = \<lparr>px = width - 2, pz = height - 2\<rparr>
      in bindE (lay_ring width height (init_grid width height False)) (\<lambda>m1.
         bindE (lay_walls walls width height m1) (\<lambda>m2.
         bindE (modify_cell m2 (pz start) (px start) (\<lambda>c. c\<lparr>isStart := True\<rparr>)) (\<lambda>m3.
         bindE (modify_cell m3 (pz start) (px start) (\<lambda>c. c\<lparr>isWall := False\<rparr>)) (\<lambda>m4.
         bindE (modify_cell m4 (pz endp) (px endp) (\<lambda>c. c\<lparr>isEnd := True\<rparr>)) (\<lambda>m5.
         bindE (modify_cell m5 (pz endp) (px endp) (\<lambda>c. c\<lparr>isWall := False\<rparr>)) (\<lambda>m6.
         Inr \<lparr>r_maze = m6, r_start = start, r_end = endp,
              r_width = width, r_height = height\<rparr>)))))))"

text \<open>
  \<open>const preset = PRESET_MAZES[presetIndex % PRESET_MAZES.length]\<close>, then the destructuring
  \<open>const { width, height, walls } = preset\<close>, which throws when \<open>preset\<close> is \<open>undefined\<close>.
\<close>

definition createPresetMaze :: "int \<Rightarrow> error + PresetMaze" where
  "createPresetMaze presetIndex =
     (case array_get PRESET_MAZES (js_rem presetIndex (int (length PRESET_MAZES))) of
        None \<Rightarrow> Inl TypeError
      | Some preset \<Rightarrow> build_preset preset)"

section \<open>The store\<close>

text \<open>
  The state held by \<open>useMaze\<close>. The two cursors only ever hold \<open>0\<close> or a successor: they
  are naturals. \<open>stats\<close> is stored as the solver gave it and never computed with.
\<close>

record MazeState =
  phase :: GamePhase
  selectedAlgorithm :: "Algorithm option"
  maze :: maze
  mazeWidth :: int
  mazeHeight :: int
  startPos :: Position
  endPos :: Position
  path :: "Position list"
  visitedCells :: "Position list"
  ballPosition :: Position
  pathIndex :: nat
  stats :: "AlgorithmStats option"
  visualizationMode :: VisualizationMode
  difficulty :: Difficulty
  visualizationIndex :: nat

fun DIFFICULTY_SIZES :: "Difficulty \<Rightarrow> int \<times> int" where
  "DIFFICULTY_SIZES Easy = (11, 11)"
| "DIFFICULTY_SIZES Medium = (15, 15)"
| "DIFFICULTY_SIZES Hard = (21, 21)"

text \<open>
  \<open>const initialMaze = createPresetMaze(0)\<close> runs when the module is loaded, and the store
  starts from it.
\<close>

definition initial_state :: "error + MazeState" where
  "initial_state =
     bindE (createPresetMaze 0) (\<lambda>initialMaze.
       Inr \<lparr>phase = Menu, selectedAlgorithm = None, maze = r_maze initialMaze,
            mazeWidth = r_width initialMaze, mazeHeight = r_height initialMaze,
            startPos = r_start initialMaze, endPos = r_end initialMaze,
            path = [], visitedCells = [], ballPosition = r_start initialMaze,
            pathIndex = 0, stats = None, visualizationMode = Instant,
            difficulty = Medium, visualizationIndex = 0\<rparr>)"

definition setAlgorithm :: "Algorithm \<Rightarrow> MazeState \<Rightarrow> MazeState" where
  "setAlgorithm algo s = s\<lparr>selectedAlgorithm := Some algo\<rparr>"

definition setVisualizationMode :: "VisualizationMode \<Rightarrow> MazeState \<Rightarrow> MazeState" where
  "setVisualizationMode mode s = s\<lparr>visualizationMode := mode\<rparr>"

definition setDifficulty :: "Difficulty \<Rightarrow> MazeState \<Rightarrow> MazeState" where
  "setDifficulty diff s = s\<lparr>difficulty := diff\<rparr>"

definition startGame :: "MazeState \<Rightarrow> MazeState" where
  "startGame s = (if selectedAlgorithm s \<noteq> None then s\<lparr>phase := Solving\<rparr> else s)"

text \<open>
  The overlay loop \<open>cells.forEach(pos => { if (newMaze[pos.z] && newMaze[pos.z][pos.x])
  newMaze[pos.z][pos.x].flag = true; })\<close>, on the fresh copy \<open>newMaze\<close>.
\<close>

definition mark_cells :: "(MazeCell \<Rightarrow> MazeCell) \<Rightarrow> Position list \<Rightarrow> maze \<Rightarrow> maze" where
  "mark_cells f cells m =
     fold (\<lambda>pos newMaze. if in_grid newMaze (pz pos) (px pos)
                          then upd_cell newMaze (pz pos) (px pos) f
                          else newMaze)
       cells m"

definition setPath :: "Position list \<Rightarrow> MazeState \<Rightarrow> MazeState" where
  "setPath p s =
     (let newMaze = map (map (\<lambda>cell. cell\<lparr>isPath := False\<rparr>)) (maze s)
      in s\<lparr>path := p, maze := mark_cells (\<lambda>c. c\<lparr>isPath := True\<rparr>) p newMaze\<rparr>)"

definition setVisitedCells :: "Position list \<Rightarrow> MazeState \<Rightarrow> MazeState" where
  "setVisitedCells cells s =
     (let newMaze = map (map (\<lambda>cell. cell\<lparr>isVisited := False\<rparr>)) (maze s)
      in s\<lparr>visitedCells := cells, maze := mark_cells (\<lambda>c. c\<lparr>isVisited := True\<rparr>) cells newMaze\<rparr>)"

definition storeVisitedCells :: "Position list \<Rightarrow> MazeState \<Rightarrow> MazeState" where
  "storeVisitedCells cells s = s\<lparr>visitedCells := cells\<rparr>"

definition setStats :: "AlgorithmStats \<Rightarrow> MazeState \<Rightarrow> MazeState" where
  "setStats st s = s\<lparr>stats := Some st\<rparr>"

definition startVisualization :: "MazeState \<Rightarrow> MazeState" where
  "startVisualization s =
     (let newMaze = map (map (\<lambda>cell. cell\<lparr>isVisited := False, isPath := False\<rparr>)) (maze s)
      in s\<lparr>phase := Visualizing, visualizationIndex := 0, maze := newMaze\<rparr>)"

definition advanceVisualization :: "MazeState \<Rightarrow> bool \<times> MazeState" where
  "advanceVisualization s =
     (if visualizationIndex s < length (visitedCells s)
      then (let newMaze = maze s;
                cell = visitedCells s ! visualizationIndex s;
                newMaze' = (if in_grid newMaze (pz cell) (px cell)
                            then upd_cell newMaze (pz cell) (px cell) (\<lambda>c. c\<lparr>isVisited := True\<rparr>)
                            else newMaze)
            in (True, s\<lparr>maze := newMaze', visualizationIndex := visualizationIndex s + 1\<rparr>))
      else (False, s\<lparr>maze := mark_cells (\<lambda>c. c\<lparr>isPath := True\<rparr>) (path s) (maze s)\<rparr>))"

definition startMoving :: "MazeState \<Rightarrow> MazeState" where
  "startMoving s = s\<lparr>phase := Moving, pathIndex := 0\<rparr>"

definition moveBall :: "MazeState \<Rightarrow> bool \<times> MazeState" where
  "moveBall s =
     (if pathIndex s < length (path s)
      then (True, s\<lparr>ballPosition := path s ! pathIndex s, pathIndex := pathIndex s + 1\<rparr>)
      else (False, s))"

definition complete :: "MazeState \<Rightarrow> MazeState" where
  "complete s = s\<lparr>phase := Completed\<rparr>"

definition restart :: "(nat \<Rightarrow> nat) \<Rightarrow> MazeState \<Rightarrow> error + MazeState" where
  "restart rnd s =
     (let size = DIFFICULTY_SIZES (difficulty s)
      in bindE (generateRandomMaze rnd (fst size) (snd size)) (\<lambda>newMaze.
         Inr (s\<lparr>phase := Menu, selectedAlgorithm := None, maze := r_maze newMaze,
                mazeWidth := fst size, mazeHeight := snd size,
                startPos := r_start newMaze, endPos := r_end newMaze,
                path := [], visitedCells := [], ballPosition := r_start newMaze,
                pathIndex := 0, stats := None, visualizationIndex := 0\<rparr>)))"

definition generateMaze :: "(nat \<Rightarrow> nat) \<Rightarrow> MazeState \<Rightarrow> error + MazeState" where
  "generateMaze rnd s =
     (let size = DIFFICULTY_SIZES (difficulty s)
      in bindE (generateRandomMaze rnd (fst size) (snd size)) (\<lambda>newMaze.
         Inr (s\<lparr>maze := r_maze newMaze,
                mazeWidth := fst size, mazeHeight := snd size,
                startPos := r_start newMaze, endPos := r_end newMaze,
                ballPosition := r_start newMaze, path := [], visitedCells := [],
                pathIndex := 0, stats := None, visualizationIndex := 0\<rparr>)))"

definition loadPresetMaze :: "int \<Rightarrow> MazeState \<Rightarrow> error + MazeState" where
  "loadPresetMaze preset s =
     bindE (createPresetMaze preset) (\<lambda>presetMaze.
       Inr (s\<lparr>maze := r_maze presetMaze,
              mazeWidth := r_width presetMaze, mazeHeight := r_height presetMaze,
              startPos := r_start presetMaze, endPos := r_end presetMaze,
              ballPosition := r_start presetMaze, path := [], visitedCells := [],
              pathIndex := 0, stats := None, visualizationIndex := 0\<rparr>))"

subsection \<open>Sequences of store operations\<close>

text \<open>
  The actions of the store as data. \<open>Restart\<close> and \<open>GenerateMaze\<close> carry the random draws of
  their run. An action that throws never reaches its \<open>set\<close>: the store keeps its state.
\<close>

datatype action =
    SetAlgorithm Algorithm
  | SetVisualizationMode VisualizationMode
  | SetDifficulty Difficulty
  | StartGame
  | SetPath "Position list"
  | SetVisitedCells "Position list"
  | StoreVisitedCells "Position list"
  | SetStats AlgorithmStats
  | StartVisualization
  | AdvanceVisualization
  | StartMoving
  | MoveBall
  | Complete
  | Restart "nat \<Rightarrow> nat"
  | GenerateMaze "nat \<Rightarrow> nat"
  | LoadPresetMaze int

fun run_action :: "action \<Rightarrow> MazeState \<Rightarrow> error + MazeState" where
  "run_action (SetAlgorithm a) s = Inr (setAlgorithm a s)"
| "run_action (SetVisualizationMode v) s = Inr (setVisualizationMode v s)"
| "run_action (SetDifficulty d) s = Inr (setDifficulty d s)"
| "run_action StartGame s = Inr (startGame s)"
| "run_action (SetPath p) s = Inr (setPath p s)"
| "run_action (SetVisitedCells cells) s = Inr (setVisitedCells cells s)"
| "run_action (StoreVisitedCells cells) s = Inr (storeVisitedCells cells s)"
| "run_action (SetStats st) s = Inr (setStats st s)"
| "run_action StartVisualization s = Inr (startVisualization s)"
| "run_action AdvanceVisualization s = Inr (snd (advanceVisualization s))"
| "run_action StartMoving s = Inr (startMoving s)"
| "run_action MoveBall s = Inr (snd (moveBall s))"
| "run_action Complete s = Inr (complete s)"
| "run_action (Restart rnd) s = restart rnd s"
| "run_action (GenerateMaze rnd) s = generateMaze rnd s"
| "run_action (LoadPresetMaze i) s = loadPresetMaze i s"

definition after_action :: "action \<Rightarrow> MazeState \<Rightarrow> MazeState" where
  "after_action a s = (case run_action a s of Inl e \<Rightarrow> s | Inr s' \<Rightarrow> s')"

definition after_actions :: "action list \<Rightarrow> MazeState \<Rightarrow> MazeState" where
  "after_actions as s = fold after_action as s"

section \<open>Shape of the grid and what the carving touches\<close>

text \<open>
  A grid is well formed for \<open>width\<close> and \<open>height\<close> when it has \<open>height\<close> rows of \<open>width\<close>
  cells and each cell records its own column and row. A cell is interior when it is off the
  boundary ring. \<open>carved m m'\<close> says that \<open>m'\<close> keeps the coordinates of \<open>m\<close> and agrees
  with it on every cell that is not interior.
\<close>

definition interior :: "int \<Rightarrow> int \<Rightarrow> int \<Rightarrow> int \<Rightarrow> bool" where
  "interior width height xx zz \<longleftrightarrow> 0 < xx \<and> xx < width - 1 \<and> 0 < zz \<and> zz < height - 1"

definition coords :: "maze \<Rightarrow> (int \<times> int) list list" where
  "coords m = map (map (\<lambda>c. (cx c, cz c))) m"

definition well_formed :: "maze \<Rightarrow> int \<Rightarrow> int \<Rightarrow> bool" where
  "well_formed m width height \<longleftrightarrow>
     coords m = map (\<lambda>zz. map (\<lambda>xx. (int xx, int zz)) [0..<nat width]) [0..<nat height]"

definition carved :: "int \<Rightarrow> int \<Rightarrow> maze \<Rightarrow> maze \<Rightarrow> bool" where
  "carved width height m m' \<longleftrightarrow>
     map (map (\<lambda>c. c\<lparr>isWall := True\<rparr>)) m' = map (map (\<lambda>c. c\<lparr>isWall := True\<rparr>)) m \<and>
     (\<forall>zz xx. \<not> interior width height xx zz \<longrightarrow> cell_at m' zz xx = cell_at m zz xx)"

lemma coords_init_grid: "well_formed (init_grid width height wall) width height"
  by (simp add: well_formed_def coords_def init_grid_def)

lemma well_formed_length:
  "well_formed m width height \<Longrightarrow> length m = nat height"
  unfolding well_formed_def coords_def by (drule arg_cong[where f = length]) simp

lemma well_formed_row:
  assumes "well_formed m width height" "zz < nat height"
  shows "length (m ! zz) = nat width"
proof -
  from assms(1) have "coords m ! zz = map (\<lambda>zz. map (\<lambda>xx. (int xx, int zz)) [0..<nat width]) [0..<nat height] ! zz"
    by (simp add: well_formed_def)
  then have "map (\<lambda>c. (cx c, cz c)) (m ! zz) = map (\<lambda>xx. (int xx, int zz)) [0..<nat width]"
    using assms well_formed_length[OF assms(1)] by (simp add: coords_def)
  then show ?thesis by (drule_tac arg_cong[where f = length]) simp
qed

lemma well_formed_cell:
  assumes "well_formed m width height" "zz < nat height" "xx < nat width"
  shows "cx (m ! zz ! xx) = int xx \<and> cz (m ! zz ! xx) = int zz"
proof -
  from assms(1) have "coords m ! zz = map (\<lambda>zz. map (\<lambda>xx. (int xx, int zz)) [0..<nat width]) [0..<nat height] ! zz"
    by (simp add: well_formed_def)
  then have "map (\<lambda>c. (cx c, cz c)) (m ! zz) = map (\<lambda>xx. (int xx, int zz)) [0..<nat width]"
    using assms well_formed_length[OF assms(1)] by (simp add: coords_def)
  then have "map (\<lambda>c. (cx c, cz c)) (m ! zz) ! xx = map (\<lambda>xx. (int xx, int zz)) [0..<nat width] ! xx"
    by simp
  then show ?thesis using assms well_formed_row[OF assms(1,2)] by simp
qed

lemma well_formedI:
  assumes "length m = nat height"
    and "\<And>zz. zz < nat height \<Longrightarrow> length (m ! zz) = nat width"
    and "\<And>zz xx. zz < nat height \<Longrightarrow> xx < nat width \<Longrightarrow> cx (m ! zz ! xx) = int xx \<and> cz (m ! zz ! xx) = int zz"
  shows "well_formed m width height"
  unfolding well_formed_def coords_def
  by (rule nth_equalityI) (use assms in \<open>auto intro!: nth_equalityI\<close>)

lemma in_grid_well_formed:
  "well_formed m width height \<Longrightarrow>
   in_grid m zz xx \<longleftrightarrow> 0 \<le> zz \<and> zz < height \<and> 0 \<le> xx \<and> xx < width"
  using well_formed_length[of m width height] well_formed_row[of m width height "nat zz"]
  by (auto simp: in_grid_def)

lemma map_update_same:
  "i < length row \<Longrightarrow> g (f (row ! i)) = g (row ! i) \<Longrightarrow> map g (row[i := f (row ! i)]) = map g row"
  by (simp add: map_update list_update_same_conv)

lemma map_map_upd:
  assumes "\<And>c. g (f c) = g c"
  shows "map (map g) (upd_cell m zz xx f) = map (map g) m"
proof (cases "in_grid m zz xx")
  case True
  then have "map g ((m ! nat zz)[nat xx := f (m ! nat zz ! nat xx)]) = map g (m ! nat zz)"
    by (intro map_update_same) (simp_all add: in_grid_def assms)
  then have "map (map g) (upd_cell m zz xx f) = (map (map g) m)[nat zz := map (map g) m ! nat zz]"
    using True by (simp add: upd_cell_def in_grid_def map_update del: list_update_id)
  then show ?thesis by simp
next
  case False
  then show ?thesis by (simp add: upd_cell_def)
qed

lemma coords_upd:
  assumes "\<And>c. cx (f c) = cx c \<and> cz (f c) = cz c"
  shows "coords (upd_cell m zz xx f) = coords m"
proof (cases "in_grid m zz xx")
  case True
  then have "map (\<lambda>c. (cx c, cz c)) ((m ! nat zz)[nat xx := f (m ! nat zz ! nat xx)])
               = map (\<lambda>c. (cx c, cz c)) (m ! nat zz)"
    by (intro map_update_same) (simp_all add: in_grid_def assms)
  then have "coords (upd_cell m zz xx f) = (coords m)[nat zz := coords m ! nat zz]"
    using True by (simp add: coords_def upd_cell_def in_grid_def map_update del: list_update_id)
  then show ?thesis by simp
next
  case False
  then show ?thesis by (simp add: upd_cell_def)
qed

lemma mid_interior:
  "interior w h xx zz \<Longrightarrow> interior w h (xx + dx) (zz + dz) \<Longrightarrow>
   interior w h (xx + dx div 2) (zz + dz div 2)"
proof -
  have a: "\<And>a d b::int. 0 < a \<Longrightarrow> a < b \<Longrightarrow> 0 < a + d \<Longrightarrow> a + d < b \<Longrightarrow> 0 < a + d div 2 \<and> a + d div 2 < b"
    by linarith
  assume "interior w h xx zz" "interior w h (xx + dx) (zz + dz)"
  then show ?thesis
    using a[of xx "w - 1" dx] a[of zz "h - 1" dz] by (simp add: interior_def)
qed


lemma well_formed_coords: "coords m' = coords m \<Longrightarrow> well_formed m w h \<Longrightarrow> well_formed m' w h"
  by (simp add: well_formed_def)

lemma carved_refl: "carved w h m m"
  by (simp add: carved_def)

lemma carved_trans: "carved w h m m1 \<Longrightarrow> carved w h m1 m2 \<Longrightarrow> carved w h m m2"
  by (simp add: carved_def)

lemma carved_open:
  "interior w h xx zz \<Longrightarrow> carved w h m (upd_cell m zz xx (\<lambda>c. c\<lparr>isWall := False\<rparr>))"
  unfolding carved_def
proof (intro conjI allI impI)
  show "map (map (\<lambda>c. c\<lparr>isWall := True\<rparr>)) (upd_cell m zz xx (\<lambda>c. c\<lparr>isWall := False\<rparr>))
          = map (map (\<lambda>c. c\<lparr>isWall := True\<rparr>)) m"
    by (rule map_map_upd) simp
next
  fix z x assume i: "interior w h xx zz" and n: "\<not> interior w h x z"
  then have "nat z \<noteq> nat zz \<or> nat x \<noteq> nat xx" by (auto simp: interior_def)
  then show "cell_at (upd_cell m zz xx (\<lambda>c. c\<lparr>isWall := False\<rparr>)) z x = cell_at m z x"
    by (auto simp: upd_cell_def cell_at_def in_grid_def nth_list_update)
qed

lemma carved_proj:
  assumes "carved w h m m'" and "\<And>c. g (c\<lparr>isWall := True\<rparr>) = g c"
  shows "map (map g) m' = map (map g) m"
proof -
  have e: "map (map g) (map (map (\<lambda>c. c\<lparr>isWall := True\<rparr>)) n) = map (map g) n" for n
    by (simp add: comp_def assms(2))
  from assms(1) have "map (map g) (map (map (\<lambda>c. c\<lparr>isWall := True\<rparr>)) m')
                    = map (map g) (map (map (\<lambda>c. c\<lparr>isWall := True\<rparr>)) m)"
    by (simp only: carved_def)
  then show ?thesis unfolding e .
qed

lemma carved_well_formed: "carved w h m m' \<Longrightarrow> well_formed m w h \<Longrightarrow> well_formed m' w h"
  using carved_proj[of w h m m' "\<lambda>c. (cx c, cz c)"] by (simp add: well_formed_def coords_def)

lemma in_grid_interior: "well_formed m w h \<Longrightarrow> interior w h xx zz \<Longrightarrow> in_grid m zz xx"
  by (simp add: in_grid_well_formed interior_def)

lemma carve_total:
  "well_formed (fst s) w h \<Longrightarrow> interior w h xx zz \<Longrightarrow>
     \<exists>s'. carve rnd w h xx zz s = Inr s' \<and> carved w h (fst s) (fst s')"
  "well_formed (fst s) w h \<Longrightarrow> interior w h xx zz \<Longrightarrow>
     \<exists>s'. carve_loop rnd w h xx zz ds s = Inr s' \<and> carved w h (fst s) (fst s')"
proof (induction rnd w h xx zz s and rnd w h xx zz ds s rule: carve_carve_loop.induct)
  case (1 rnd width height xx zz m k)
  let ?m1 = "upd_cell m zz xx (\<lambda>c. c\<lparr>isWall := False\<rparr>)"
  from 1 have ing: "in_grid m zz xx" by (simp add: in_grid_interior)
  have c1: "carved width height m ?m1" using 1 by (simp add: carved_open)
  with 1 have "well_formed ?m1 width height" by (simp add: carved_well_formed)
  with "1.IH"[OF ing] "1.prems" obtain s' where
    "carve_loop rnd width height xx zz (shuffle rnd 3 k directions) (?m1, k + 3) = Inr s'"
    "carved width height ?m1 (fst s')" by auto
  with ing c1 show ?case by (auto intro: carved_trans)
next
  case (2 rnd width height xx zz s)
  then show ?case by (simp add: carved_refl)
next
  case (3 rnd width height xx zz dx dz ds m k)
  let ?nx = "xx + dx" and ?nz = "zz + dz"
  from "3.prems" have wf: "well_formed m width height" and int: "interior width height xx zz" by simp_all
  show ?case
  proof (cases "0 < ?nx \<and> ?nx < width - 1 \<and> 0 < ?nz \<and> ?nz < height - 1")
    case False
    have eq: "carve_loop rnd width height xx zz ((dx, dz) # ds) (m, k)
                 = carve_loop rnd width height xx zz ds (m, k)"
      by (simp only: carve_loop.simps Let_def False if_False)
    from "3.IH"(4)[OF refl refl False] "3.prems" show ?thesis unfolding eq by simp
  next
    case inr: True
    then have nint: "interior width height ?nx ?nz" by (simp add: interior_def)
    have ing: "in_grid m ?nz ?nx" using wf nint by (rule in_grid_interior)
    have ing': "\<not> \<not> in_grid m ?nz ?nx" using ing by simp
    show ?thesis
    proof (cases "isWall (cell_at m ?nz ?nx)")
      case False
      with inr ing have eq: "carve_loop rnd width height xx zz ((dx, dz) # ds) (m, k)
                   = carve_loop rnd width height xx zz ds (m, k)"
        by (simp add: Let_def)
      from "3.IH"(3)[OF refl refl inr ing' False] "3.prems" show ?thesis unfolding eq by simp
    next
      case wl: True
      let ?m1 = "upd_cell m (zz + dz div 2) (xx + dx div 2) (\<lambda>c. c\<lparr>isWall := False\<rparr>)"
      have mint: "interior width height (xx + dx div 2) (zz + dz div 2)"
        using int nint by (rule mid_interior)
      then have m1: "modify_cell m (zz + dz div 2) (xx + dx div 2) (\<lambda>c. c\<lparr>isWall := False\<rparr>) = Inr ?m1"
        using wf by (simp add: modify_cell_def in_grid_interior)
      have c1: "carved width height m ?m1" using mint by (rule carved_open)
      then have wf1: "well_formed ?m1 width height" using wf by (rule carved_well_formed)
      from "3.IH"(1)[OF refl refl inr ing' wl m1] wf1 nint obtain s1 where
        s1: "carve rnd width height ?nx ?nz (?m1, k) = Inr s1" and c2: "carved width height ?m1 (fst s1)"
        by auto
      from c2 wf1 have wf2: "well_formed (fst s1) width height" by (rule carved_well_formed)
      from "3.IH"(2)[OF refl refl inr ing' wl m1 s1 wf2 int] obtain s' where
        s': "carve_loop rnd width height xx zz ds s1 = Inr s'" and c3: "carved width height (fst s1) (fst s')"
        by auto
      from c1 c2 c3 have "carved width height m (fst s')" by (blast intro: carved_trans)
      moreover from inr ing wl m1 s1 s'
      have "carve_loop rnd width height xx zz ((dx, dz) # ds) (m, k) = Inr s'"
        by (simp add: Let_def)
      ultimately show ?thesis by simp
    qed
  qed
qed


definition finish_random :: "int \<Rightarrow> int \<Rightarrow> maze \<Rightarrow> maze" where
  "finish_random w h m1 =
     upd_cell (upd_cell (upd_cell (upd_cell (upd_cell (upd_cell m1
       1 1 (\<lambda>c. c\<lparr>isStart := True\<rparr>))
       1 1 (\<lambda>c. c\<lparr>isWall := False\<rparr>))
       (h - 2) (w - 2) (\<lambda>c. c\<lparr>isEnd := True\<rparr>))
       (h - 2) (w - 2) (\<lambda>c. c\<lparr>isWall := False\<rparr>))
       (h - 2 - 1) (w - 2) (\<lambda>c. c\<lparr>isWall := False\<rparr>))
       (h - 2) (w - 2 - 1) (\<lambda>c. c\<lparr>isWall := False\<rparr>)"

lemma cell_at_init_grid:
  "0 \<le> zz \<Longrightarrow> zz < h \<Longrightarrow> 0 \<le> xx \<Longrightarrow> xx < w \<Longrightarrow>
   cell_at (init_grid w h wall) zz xx =
     \<lparr>cx = xx, cz = zz, isWall = wall, isStart = False, isEnd = False, isPath = False, isVisited = False\<rparr>"
  by (simp add: cell_at_def init_grid_def)

lemma generateRandomMaze_eq:
  assumes "4 \<le> w" "4 \<le> h"
  shows "\<exists>m1 k. carve rnd w h 1 1 (init_grid w h True, 0) = Inr (m1, k)
           \<and> carved w h (init_grid w h True) m1
           \<and> generateRandomMaze rnd w h =
               Inr \<lparr>r_maze = finish_random w h m1, r_start = \<lparr>px = 1, pz = 1\<rparr>,
                    r_end = \<lparr>px = w - 2, pz = h - 2\<rparr>\<rparr>"
proof -
  have wf0: "well_formed (fst (init_grid w h True, 0::nat)) w h" by (simp add: coords_init_grid)
  have i11: "interior w h 1 1" using assms by (simp add: interior_def)
  from carve_total(1)[OF wf0 i11, of rnd] obtain m1 k where
    c: "carve rnd w h 1 1 (init_grid w h True, 0) = Inr (m1, k)"
    and cv: "carved w h (init_grid w h True) m1" by auto
  from cv have wf1: "well_formed m1 w h" using coords_init_grid by (rule carved_well_formed)
  have g: "\<And>zz xx. in_grid m1 zz xx \<longleftrightarrow> 0 \<le> zz \<and> zz < h \<and> 0 \<le> xx \<and> xx < w"
    using wf1 by (rule in_grid_well_formed)
  have "generateRandomMaze rnd w h =
               Inr \<lparr>r_maze = finish_random w h m1, r_start = \<lparr>px = 1, pz = 1\<rparr>,
                    r_end = \<lparr>px = w - 2, pz = h - 2\<rparr>\<rparr>"
    using assms by (simp add: generateRandomMaze_def c bindE_def modify_cell_def g finish_random_def Let_def
        del: carve.simps)
  with c cv show ?thesis by blast
qed

lemma finish_random_props:
  assumes "4 \<le> w" "4 \<le> h" and cv: "carved w h (init_grid w h True) m1"
  shows "well_formed (finish_random w h m1) w h"
    and "\<not> isWall (cell_at (finish_random w h m1) 1 1)"
    and "isStart (cell_at (finish_random w h m1) 1 1)"
    and "\<not> isWall (cell_at (finish_random w h m1) (h - 2) (w - 2))"
    and "isEnd (cell_at (finish_random w h m1) (h - 2) (w - 2))"
    and "\<not> isWall (cell_at (finish_random w h m1) (h - 3) (w - 2))"
    and "\<not> isWall (cell_at (finish_random w h m1) (h - 2) (w - 3))"
    and "\<And>zz xx. 0 \<le> zz \<Longrightarrow> zz < h \<Longrightarrow> 0 \<le> xx \<Longrightarrow> xx < w \<Longrightarrow> \<not> interior w h xx zz \<Longrightarrow>
           isWall (cell_at (finish_random w h m1) zz xx)"
proof -
  from cv have wf1: "well_formed m1 w h" using coords_init_grid by (rule carved_well_formed)
  have g: "\<And>zz xx. in_grid m1 zz xx \<longleftrightarrow> 0 \<le> zz \<and> zz < h \<and> 0 \<le> xx \<and> xx < w"
    using wf1 by (rule in_grid_well_formed)
  have "coords (finish_random w h m1) = coords m1"
    by (simp add: finish_random_def coords_upd)
  then show "well_formed (finish_random w h m1) w h" using wf1 by (rule well_formed_coords)
  show "\<not> isWall (cell_at (finish_random w h m1) 1 1)"
    using assms by (simp add: finish_random_def cell_at_upd g)
  show "isStart (cell_at (finish_random w h m1) 1 1)"
    using assms by (simp add: finish_random_def cell_at_upd g)
  show "\<not> isWall (cell_at (finish_random w h m1) (h - 2) (w - 2))"
    using assms by (simp add: finish_random_def cell_at_upd g)
  show "isEnd (cell_at (finish_random w h m1) (h - 2) (w - 2))"
    using assms by (simp add: finish_random_def cell_at_upd g)
  show "\<not> isWall (cell_at (finish_random w h m1) (h - 3) (w - 2))"
    using assms by (simp add: finish_random_def cell_at_upd g)
  show "\<not> isWall (cell_at (finish_random w h m1) (h - 2) (w - 3))"
    using assms by (simp add: finish_random_def cell_at_upd g)
  fix zz xx assume r: "0 \<le> zz" "zz < h" "0 \<le> xx" "xx < w" and n: "\<not> interior w h xx zz"
  have "cell_at (finish_random w h m1) zz xx = cell_at m1 zz xx"
    using assms r n by (auto simp: finish_random_def cell_at_upd g interior_def)
  also have "\<dots> = cell_at (init_grid w h True) zz xx" using cv n by (simp add: carved_def)
  finally show "isWall (cell_at (finish_random w h m1) zz xx)" using r by (simp add: cell_at_init_grid)
qed

section \<open>The moving phase\<close>

text \<open>
  The caller (the render loop) calls \<open>moveBall\<close> once per tick; \<open>moveBall_times n\<close> is \<open>n\<close>
  such calls in a row, with the value returned by each.
\<close>

fun moveBall_times :: "nat \<Rightarrow> MazeState \<Rightarrow> bool list \<times> MazeState" where
  "moveBall_times 0 s = ([], s)"
| "moveBall_times (Suc n) s =
     (let (b, s1) = moveBall s; (bs, s2) = moveBall_times n s1 in (b # bs, s2))"

text \<open>A small session state used to instantiate the statements below.\<close>

definition demo_state :: MazeState where
  "demo_state = \<lparr>phase = Solving, selectedAlgorithm = Some Bfs, maze = init_grid 3 3 False,
     mazeWidth = 3, mazeHeight = 3, startPos = \<lparr>px = 1, pz = 1\<rparr>, endPos = \<lparr>px = 1, pz = 1\<rparr>,
     path = [\<lparr>px = 1, pz = 1\<rparr>, \<lparr>px = 2, pz = 1\<rparr>], visitedCells = [\<lparr>px = 1, pz = 1\<rparr>],
     ballPosition = \<lparr>px = 1, pz = 1\<rparr>, pathIndex = 0, stats = None,
     visualizationMode = Instant, difficulty = Easy, visualizationIndex = 0\<rparr>"

lemma moveBall_times_within:
  "pathIndex s + k \<le> length (path s) \<Longrightarrow>
   moveBall_times k s =
     (replicate k True,
      s\<lparr>ballPosition := (if k = 0 then ballPosition s else path s ! (pathIndex s + k - 1)),
        pathIndex := pathIndex s + k\<rparr>)"
proof (induction k arbitrary: s)
  case 0
  then show ?case by simp
next
  case (Suc k)
  let ?s1 = "s\<lparr>ballPosition := path s ! pathIndex s, pathIndex := pathIndex s + 1\<rparr>"
  from Suc.prems have mb: "moveBall s = (True, ?s1)" by (simp add: moveBall_def)
  from Suc.prems have "pathIndex ?s1 + k \<le> length (path ?s1)" by simp
  from Suc.IH[OF this] mb show ?case by (cases k) simp_all
qed

text \<open>
  Claim C4. After \<open>startMoving\<close>, with a non-empty path of length \<open>n\<close>, \<open>n\<close> calls of
  \<open>moveBall\<close> all return \<open>true\<close> and leave \<open>pathIndex = n\<close> and the ball on the last cell of
  the path; the next call returns \<open>false\<close> and changes nothing.
\<close>

theorem moveBall_walks_path:
  assumes "path s \<noteq> []"
    and "moveBall_times (length (path s)) (startMoving s) = (bs, s')"
  shows "pathIndex s' = length (path s)
       \<and> ballPosition s' = path s ! (length (path s) - 1)
       \<and> bs = replicate (length (path s)) True
       \<and> moveBall s' = (False, s')"
proof -
  have "pathIndex (startMoving s) + length (path s) \<le> length (path (startMoving s))"
    by (simp add: startMoving_def)
  from moveBall_times_within[OF this] assms show ?thesis
    by (auto simp: startMoving_def moveBall_def)
qed

theorem moveBall_walks_path_witness:
  "path demo_state \<noteq> []
   \<and> pathIndex (snd (moveBall_times (length (path demo_state)) (startMoving demo_state))) = 2
   \<and> ballPosition (snd (moveBall_times (length (path demo_state)) (startMoving demo_state))) = \<lparr>px = 2, pz = 1\<rparr>
   \<and> fst (moveBall_times (length (path demo_state)) (startMoving demo_state)) = [True, True]
   \<and> fst (moveBall (snd (moveBall_times (length (path demo_state)) (startMoving demo_state)))) = False"
proof -
  have ne: "path demo_state \<noteq> []" by (simp add: demo_state_def)
  obtain bs s' where r: "moveBall_times (length (path demo_state)) (startMoving demo_state) = (bs, s')"
    by (cases "moveBall_times (length (path demo_state)) (startMoving demo_state)")
  from moveBall_walks_path[OF ne r] r ne show ?thesis
    by (simp add: demo_state_def)
qed

text \<open>
  Claim C8. \<open>moveBall\<close> never changes the phase and reports exhaustion through its return
  value only; a successful call changes \<open>ballPosition\<close> and \<open>pathIndex\<close> and nothing else, a
  failed one changes nothing; and the only store action that brings a session into the
  \<open>completed\<close> phase is \<open>complete\<close>.
\<close>

theorem moveBall_frame:
  "phase (snd (moveBall s)) = phase s
   \<and> fst (moveBall s) = (pathIndex s < length (path s))
   \<and> (fst (moveBall s) \<longrightarrow>
        snd (moveBall s) = s\<lparr>ballPosition := path s ! pathIndex s, pathIndex := pathIndex s + 1\<rparr>
        \<and> maze (snd (moveBall s)) = maze s \<and> path (snd (moveBall s)) = path s
        \<and> visitedCells (snd (moveBall s)) = visitedCells s \<and> stats (snd (moveBall s)) = stats s
        \<and> visualizationIndex (snd (moveBall s)) = visualizationIndex s)
   \<and> (\<not> fst (moveBall s) \<longrightarrow> snd (moveBall s) = s)
   \<and> (phase (after_action a s) = Completed \<and> phase s \<noteq> Completed \<longrightarrow> a = Complete)"
proof -
  have "phase (after_action a s) = Completed \<Longrightarrow> phase s \<noteq> Completed \<Longrightarrow> a = Complete"
    by (cases a)
       (auto simp: after_action_def setAlgorithm_def setVisualizationMode_def setDifficulty_def
          startGame_def setPath_def setVisitedCells_def storeVisitedCells_def setStats_def
          startVisualization_def advanceVisualization_def startMoving_def moveBall_def
          restart_def generateMaze_def loadPresetMaze_def bindE_def Let_def
          split: if_splits sum.splits)
  then show ?thesis by (auto simp: moveBall_def)
qed

theorem moveBall_frame_witness:
  "fst (moveBall demo_state) \<and> phase (snd (moveBall demo_state)) = Solving
   \<and> snd (moveBall demo_state) = demo_state\<lparr>ballPosition := \<lparr>px = 1, pz = 1\<rparr>, pathIndex := 1\<rparr>
   \<and> \<not> fst (moveBall (demo_state\<lparr>pathIndex := 2\<rparr>))
   \<and> snd (moveBall (demo_state\<lparr>pathIndex := 2\<rparr>)) = demo_state\<lparr>pathIndex := 2\<rparr>
   \<and> phase (after_action Complete demo_state) = Completed \<and> phase demo_state \<noteq> Completed"
  using moveBall_frame[of demo_state Complete] moveBall_frame[of "demo_state\<lparr>pathIndex := 2\<rparr>" Complete]
  by (simp add: demo_state_def after_action_def complete_def)


section \<open>Marking lists of cells\<close>

text \<open>
  \<open>upd_cells f ps\<close> applies \<open>f\<close> to the cells at the coordinates \<open>ps\<close> (pairs of row and
  column) that exist, one after the other. The overlay loops, the boundary ring and the wall
  list of a preset are all of this form.
\<close>

definition upd_cells :: "(MazeCell \<Rightarrow> MazeCell) \<Rightarrow> (int \<times> int) list \<Rightarrow> maze \<Rightarrow> maze" where
  "upd_cells f ps m = fold (\<lambda>(zz, xx) m1. upd_cell m1 zz xx f) ps m"

lemma upd_cells_Nil [simp]: "upd_cells f [] m = m"
  by (simp add: upd_cells_def)

lemma upd_cells_Cons [simp]: "upd_cells f ((zz, xx) # ps) m = upd_cells f ps (upd_cell m zz xx f)"
  by (simp add: upd_cells_def)

lemma upd_cells_append: "upd_cells f (ps @ qs) m = upd_cells f qs (upd_cells f ps m)"
  by (simp add: upd_cells_def)

lemma in_grid_upd_cells [simp]: "in_grid (upd_cells f ps m) zz xx = in_grid m zz xx"
proof (induction ps arbitrary: m)
  case Nil
  show ?case by simp
next
  case (Cons p ps)
  obtain a b where p: "p = (a, b)" by (cases p)
  show ?case unfolding p upd_cells_Cons Cons.IH by simp
qed

lemma coords_upd_cells:
  "(\<And>c. cx (f c) = cx c \<and> cz (f c) = cz c) \<Longrightarrow> coords (upd_cells f ps m) = coords m"
proof (induction ps arbitrary: m)
  case Nil
  show ?case by simp
next
  case (Cons p ps)
  obtain a b where p: "p = (a, b)" by (cases p)
  show ?case unfolding p upd_cells_Cons Cons.IH[OF Cons.prems] using Cons.prems by (rule coords_upd)
qed

lemma cell_at_upd_cells:
  assumes "in_grid m zz xx" and "\<And>c. f (f c) = f c"
  shows "cell_at (upd_cells f ps m) zz xx
           = (if (zz, xx) \<in> set ps then f (cell_at m zz xx) else cell_at m zz xx)"
  using assms(1)
proof (induction ps arbitrary: m)
  case Nil
  then show ?case by simp
next
  case (Cons p ps)
  obtain a b where p: "p = (a, b)" by (cases p)
  from Cons.prems have "in_grid (upd_cell m a b f) zz xx" by simp
  from Cons.IH[OF this] have ih: "cell_at (upd_cells f ps (upd_cell m a b f)) zz xx =
      (if (zz, xx) \<in> set ps then f (cell_at (upd_cell m a b f) zz xx)
       else cell_at (upd_cell m a b f) zz xx)" .
  show ?case
  proof (cases "a = zz \<and> b = xx")
    case True
    then have "cell_at (upd_cell m a b f) zz xx = f (cell_at m zz xx)"
      using Cons.prems by (simp add: cell_at_upd)
    with True ih show ?thesis unfolding p upd_cells_Cons by (simp add: assms(2))
  next
    case False
    then have "cell_at (upd_cell m a b f) zz xx = cell_at m zz xx"
      using Cons.prems by (auto simp: cell_at_upd)
    moreover from False have "(zz, xx) \<in> set (p # ps) \<longleftrightarrow> (zz, xx) \<in> set ps"
      by (auto simp: p)
    ultimately show ?thesis using ih unfolding p upd_cells_Cons by simp
  qed
qed

lemma map_length_upd: "map length (upd_cell m zz xx f) = map length m"
  by (auto simp: upd_cell_def in_grid_def map_update list_update_same_conv)

lemma map_length_upd_cells: "map length (upd_cells f ps m) = map length m"
proof (induction ps arbitrary: m)
  case Nil
  show ?case by simp
next
  case (Cons p ps)
  obtain a b where p: "p = (a, b)" by (cases p)
  show ?case unfolding p upd_cells_Cons Cons.IH by (rule map_length_upd)
qed

lemma mark_cells_upd_cells:
  "mark_cells f cells m = upd_cells f (map (\<lambda>pos. (pz pos, px pos)) cells) m"
proof -
  have "(\<lambda>pos newMaze. if in_grid newMaze (pz pos) (px pos)
                          then upd_cell newMaze (pz pos) (px pos) f else newMaze)
      = (\<lambda>(zz, xx) m1. upd_cell m1 zz xx f) \<circ> (\<lambda>pos. (pz pos, px pos))"
    by (auto simp: fun_eq_iff upd_cell_def)
  then show ?thesis unfolding mark_cells_def upd_cells_def fold_map
    by (rule arg_cong[where f = "\<lambda>g. fold g cells m"])
qed

lemma foldE_fold:
  assumes "I s" and "\<And>a s. a \<in> set as \<Longrightarrow> I s \<Longrightarrow> f a s = Inr (g a s) \<and> I (g a s)"
  shows "foldE f as s = Inr (fold g as s) \<and> I (fold g as s)"
  using assms
proof (induction as arbitrary: s)
  case Nil
  then show ?case by simp
next
  case (Cons a as)
  from Cons.prems(2)[of a s] Cons.prems(1) have st: "f a s = Inr (g a s)" "I (g a s)" by simp_all
  from Cons.IH[OF st(2)] Cons.prems(2) st(1) show ?case by simp
qed

lemma fold_upd_cells_concat:
  "fold (\<lambda>a m. upd_cells f (cs a) m) as m = upd_cells f (concat (map cs as)) m"
  by (induction as arbitrary: m) (simp_all add: upd_cells_append)


lemma in_grid_map_map [simp]: "in_grid (map (map g) m) zz xx = in_grid m zz xx"
  by (auto simp: in_grid_def)

lemma cell_at_map_map: "in_grid m zz xx \<Longrightarrow> cell_at (map (map g) m) zz xx = g (cell_at m zz xx)"
  by (simp add: in_grid_def cell_at_def)

lemma position_mem:
  "(zz, xx) \<in> (\<lambda>pos. (pz pos, px pos)) ` set (p :: Position list) \<longleftrightarrow> \<lparr>px = xx, pz = zz\<rparr> \<in> set p"
proof
  assume "(zz, xx) \<in> (\<lambda>pos. (pz pos, px pos)) ` set p"
  then obtain pos where "pos \<in> set p" "pz pos = zz" "px pos = xx" by auto
  moreover from this have "pos = \<lparr>px = xx, pz = zz\<rparr>" by simp
  ultimately show "\<lparr>px = xx, pz = zz\<rparr> \<in> set p" by simp
next
  assume "\<lparr>px = xx, pz = zz\<rparr> \<in> set p"
  then have "(\<lambda>pos. (pz pos, px pos)) \<lparr>px = xx, pz = zz\<rparr> \<in> (\<lambda>pos. (pz pos, px pos)) ` set p"
    by (rule imageI)
  then show "(zz, xx) \<in> (\<lambda>pos. (pz pos, px pos)) ` set p" by simp
qed

lemma overlay_isPath:
  assumes "in_grid m zz xx"
  shows "cell_at (mark_cells (\<lambda>c. c\<lparr>isPath := True\<rparr>) p (map (map (\<lambda>cell. cell\<lparr>isPath := False\<rparr>)) m)) zz xx
       = (cell_at m zz xx)\<lparr>isPath := (\<lparr>px = xx, pz = zz\<rparr> \<in> set p)\<rparr>"
  using assms
  by (simp add: mark_cells_upd_cells cell_at_upd_cells cell_at_map_map position_mem)

lemma overlay_isVisited:
  assumes "in_grid m zz xx"
  shows "cell_at (mark_cells (\<lambda>c. c\<lparr>isVisited := True\<rparr>) p (map (map (\<lambda>cell. cell\<lparr>isVisited := False\<rparr>)) m)) zz xx
       = (cell_at m zz xx)\<lparr>isVisited := (\<lparr>px = xx, pz = zz\<rparr> \<in> set p)\<rparr>"
  using assms
  by (simp add: mark_cells_upd_cells cell_at_upd_cells cell_at_map_map position_mem)

lemma map_length_mark_cells: "map length (mark_cells f p (map (map g) m)) = map length m"
  by (simp add: mark_cells_upd_cells map_length_upd_cells)

text \<open>
  Claim C2. \<open>setPath\<close> and \<open>setVisitedCells\<close> keep the shape of the grid; afterwards the cell
  at row \<open>zz\<close> and column \<open>xx\<close> is the old cell with its \<open>isPath\<close> (\<open>isVisited\<close>) flag set to
  whether the position \<open>(xx, zz)\<close> occurs in the supplied list, and nothing else changed;
  positions outside the grid are skipped (the setters have no failing branch); of the
  session state only the list and the grid are replaced.
\<close>

theorem overlay_setters:
  "map length (maze (setPath p s)) = map length (maze s)
   \<and> map length (maze (setVisitedCells p s)) = map length (maze s)
   \<and> (\<forall>zz xx. in_grid (maze s) zz xx \<longrightarrow>
         cell_at (maze (setPath p s)) zz xx
           = (cell_at (maze s) zz xx)\<lparr>isPath := (\<lparr>px = xx, pz = zz\<rparr> \<in> set p)\<rparr>
       \<and> cell_at (maze (setVisitedCells p s)) zz xx
           = (cell_at (maze s) zz xx)\<lparr>isVisited := (\<lparr>px = xx, pz = zz\<rparr> \<in> set p)\<rparr>)
   \<and> setPath p s = s\<lparr>path := p, maze := maze (setPath p s)\<rparr>
   \<and> setVisitedCells p s = s\<lparr>visitedCells := p, maze := maze (setVisitedCells p s)\<rparr>"
  by (simp add: setPath_def setVisitedCells_def Let_def overlay_isPath overlay_isVisited
      map_length_mark_cells)

theorem overlay_setters_witness:
  "in_grid (maze demo_state) 1 1 \<and> in_grid (maze demo_state) 2 0 \<and> \<not> in_grid (maze demo_state) 7 (-1)
   \<and> isPath (cell_at (maze (setPath [\<lparr>px = 1, pz = 1\<rparr>, \<lparr>px = -1, pz = 7\<rparr>] demo_state)) 1 1)
   \<and> \<not> isPath (cell_at (maze (setPath [\<lparr>px = 1, pz = 1\<rparr>, \<lparr>px = -1, pz = 7\<rparr>] demo_state)) 2 0)
   \<and> isVisited (cell_at (maze (setVisitedCells [\<lparr>px = 1, pz = 1\<rparr>, \<lparr>px = -1, pz = 7\<rparr>] demo_state)) 1 1)
   \<and> \<not> isVisited (cell_at (maze (setVisitedCells [\<lparr>px = 1, pz = 1\<rparr>, \<lparr>px = -1, pz = 7\<rparr>] demo_state)) 2 0)"
proof -
  have g: "in_grid (maze demo_state) 1 1" "in_grid (maze demo_state) 2 0" "\<not> in_grid (maze demo_state) 7 (-1)"
    by (simp_all add: demo_state_def in_grid_well_formed[OF coords_init_grid])
  from overlay_setters[of "[\<lparr>px = 1, pz = 1\<rparr>, \<lparr>px = -1, pz = 7\<rparr>]" demo_state] g
  show ?thesis by simp
qed

section \<open>What the preset loader builds\<close>

text \<open>
  When no step throws, the loops of \<open>createPresetMaze\<close> are plain updates: the ring marks the
  cells \<open>ring_cells\<close>, the wall list marks its own cells, and the start and end cells are
  opened last. \<open>finish_preset\<close> is the grid this gives.
\<close>

lemma bindE_Inr: "bindE (Inr v) f = f v"
  by (simp add: bindE_def)

lemma bindE_Inl: "bindE (Inl e) f = Inl e"
  by (simp add: bindE_def)

definition ring_cells :: "int \<Rightarrow> int \<Rightarrow> (int \<times> int) list" where
  "ring_cells width height =
     concat (map (\<lambda>xx. [(0, int xx), (height - 1, int xx)]) [0..<nat width])
     @ concat (map (\<lambda>zz. [(int zz, 0), (int zz, width - 1)]) [0..<nat height])"

definition finish_preset :: "Preset \<Rightarrow> maze" where
  "finish_preset preset =
     upd_cell (upd_cell (upd_cell (upd_cell
       (upd_cells (\<lambda>c. c\<lparr>isWall := True\<rparr>) (p_walls preset)
          (upd_cells (\<lambda>c. c\<lparr>isWall := True\<rparr>) (ring_cells (p_width preset) (p_height preset))
             (init_grid (p_width preset) (p_height preset) False)))
       1 1 (\<lambda>c. c\<lparr>isStart := True\<rparr>))
       1 1 (\<lambda>c. c\<lparr>isWall := False\<rparr>))
       (p_height preset - 2) (p_width preset - 2) (\<lambda>c. c\<lparr>isEnd := True\<rparr>))
       (p_height preset - 2) (p_width preset - 2) (\<lambda>c. c\<lparr>isWall := False\<rparr>)"

lemma well_formed_upd_cells:
  "well_formed m w h \<Longrightarrow> (\<And>c. cx (f c) = cx c \<and> cz (f c) = cz c) \<Longrightarrow> well_formed (upd_cells f ps m) w h"
  by (simp add: well_formed_def coords_upd_cells)

lemma well_formed_upd:
  "well_formed m w h \<Longrightarrow> (\<And>c. cx (f c) = cx c \<and> cz (f c) = cz c) \<Longrightarrow> well_formed (upd_cell m zz xx f) w h"
  by (simp add: well_formed_def coords_upd)

lemma upd_cell_outside: "\<not> in_grid m zz xx \<Longrightarrow> upd_cell m zz xx f = m"
  by (simp add: upd_cell_def)

lemma lay_walls_ok:
  assumes wf: "well_formed m w h" and nn: "\<And>zz xx. (zz, xx) \<in> set walls \<Longrightarrow> 0 \<le> zz \<and> 0 \<le> xx"
  shows "lay_walls walls w h m = Inr (upd_cells (\<lambda>c. c\<lparr>isWall := True\<rparr>) walls m)"
proof -
  let ?f = "\<lambda>(zz, xx) m1. if zz < h \<and> xx < w
                           then modify_cell m1 zz xx (\<lambda>c. c\<lparr>isWall := True\<rparr>) else Inr m1"
  let ?g = "\<lambda>(zz, xx) m1. upd_cell m1 zz xx (\<lambda>c. c\<lparr>isWall := True\<rparr>)"
  have step: "?f a s = Inr (?g a s) \<and> well_formed (?g a s) w h"
    if a: "a \<in> set walls" and s: "well_formed s w h" for a s
  proof -
    obtain zz xx where p: "a = (zz, xx)" by (cases a)
    from a nn have n: "0 \<le> zz" "0 \<le> xx" by (auto simp: p)
    have g: "in_grid s zz xx \<longleftrightarrow> zz < h \<and> xx < w"
      using n in_grid_well_formed[OF s, of zz xx] by simp
    show ?thesis
      using s g by (auto simp: p modify_cell_def upd_cell_outside well_formed_upd)
  qed
  from foldE_fold[of "\<lambda>s. well_formed s w h" m walls ?f ?g, OF wf step]
  show ?thesis by (simp add: lay_walls_def upd_cells_def)
qed

lemma lay_ring_ok:
  assumes wf: "well_formed m w h" and "1 \<le> w" "1 \<le> h"
  shows "lay_ring w h m = Inr (upd_cells (\<lambda>c. c\<lparr>isWall := True\<rparr>) (ring_cells w h) m)"
proof -
  let ?wl = "\<lambda>c::MazeCell. c\<lparr>isWall := True\<rparr>"
  let ?I = "\<lambda>s. well_formed s w h"
  let ?f1 = "\<lambda>xx m1. bindE (modify_cell m1 0 (int xx) ?wl) (\<lambda>m2. modify_cell m2 (h - 1) (int xx) ?wl)"
  let ?g1 = "\<lambda>xx m1. upd_cells ?wl [(0, int xx), (h - 1, int xx)] m1"
  let ?f2 = "\<lambda>zz m1. bindE (modify_cell m1 (int zz) 0 ?wl) (\<lambda>m2. modify_cell m2 (int zz) (w - 1) ?wl)"
  let ?g2 = "\<lambda>zz m1. upd_cells ?wl [(int zz, 0), (int zz, w - 1)] m1"
  have s1: "?f1 a s = Inr (?g1 a s) \<and> ?I (?g1 a s)" if "a \<in> set [0..<nat w]" "?I s" for a s
    using that assms(2,3)
    by (simp add: bindE_def modify_cell_def in_grid_well_formed well_formed_upd)
  have s2: "?f2 a s = Inr (?g2 a s) \<and> ?I (?g2 a s)" if "a \<in> set [0..<nat h]" "?I s" for a s
    using that assms(2,3)
    by (simp add: bindE_def modify_cell_def in_grid_well_formed well_formed_upd)
  from foldE_fold[of ?I m "[0..<nat w]" ?f1 ?g1, OF wf s1]
  have a: "foldE ?f1 [0..<nat w] m = Inr (fold ?g1 [0..<nat w] m)" and wf1: "?I (fold ?g1 [0..<nat w] m)"
    by simp_all
  from foldE_fold[of ?I "fold ?g1 [0..<nat w] m" "[0..<nat h]" ?f2 ?g2, OF wf1 s2]
  have b: "foldE ?f2 [0..<nat h] (fold ?g1 [0..<nat w] m) = Inr (fold ?g2 [0..<nat h] (fold ?g1 [0..<nat w] m))"
    by simp
  have "lay_ring w h m = Inr (fold ?g2 [0..<nat h] (fold ?g1 [0..<nat w] m))"
    unfolding lay_ring_def a bindE_Inr b ..
  then show ?thesis
    by (simp only: fold_upd_cells_concat ring_cells_def upd_cells_append)
qed

lemma ring_cells_mem:
  "(zz, xx) \<in> set (ring_cells w h) \<longleftrightarrow>
     ((zz = 0 \<or> zz = h - 1) \<and> 0 \<le> xx \<and> xx < w) \<or> ((xx = 0 \<or> xx = w - 1) \<and> 0 \<le> zz \<and> zz < h)"
proof -
  have r: "\<And>n v. (\<exists>k\<in>{0..<nat n}. v = int k) \<longleftrightarrow> 0 \<le> v \<and> v < n"
  proof
    fix n v assume "\<exists>k\<in>{0..<nat n}. v = int k" then show "0 \<le> v \<and> v < n" by auto
  next
    fix n v :: int assume "0 \<le> v \<and> v < n"
    then have "nat v \<in> {0..<nat n}" "v = int (nat v)" by auto
    then show "\<exists>k\<in>{0..<nat n}. v = int k" by blast
  qed
  have "(zz, xx) \<in> set (ring_cells w h) \<longleftrightarrow>
        ((zz = 0 \<or> zz = h - 1) \<and> (\<exists>k\<in>{0..<nat w}. xx = int k))
      \<or> ((xx = 0 \<or> xx = w - 1) \<and> (\<exists>k\<in>{0..<nat h}. zz = int k))"
    by (auto simp: ring_cells_def)
  then show ?thesis unfolding r .
qed


lemma build_preset_eq:
  assumes "3 \<le> p_width preset" "3 \<le> p_height preset"
    and nn: "\<And>zz xx. (zz, xx) \<in> set (p_walls preset) \<Longrightarrow> 0 \<le> zz \<and> 0 \<le> xx"
  shows "build_preset preset =
           Inr \<lparr>r_maze = finish_preset preset, r_start = \<lparr>px = 1, pz = 1\<rparr>,
                r_end = \<lparr>px = p_width preset - 2, pz = p_height preset - 2\<rparr>,
                r_width = p_width preset, r_height = p_height preset\<rparr>"
proof -
  let ?w = "p_width preset" and ?h = "p_height preset"
  let ?wl = "\<lambda>c::MazeCell. c\<lparr>isWall := True\<rparr>"
  let ?m1 = "upd_cells ?wl (ring_cells ?w ?h) (init_grid ?w ?h False)"
  let ?m2 = "upd_cells ?wl (p_walls preset) ?m1"
  have r: "lay_ring ?w ?h (init_grid ?w ?h False) = Inr ?m1"
    using assms(1,2) by (intro lay_ring_ok coords_init_grid) simp_all
  have wf1: "well_formed ?m1 ?w ?h"
    by (intro well_formed_upd_cells coords_init_grid) simp
  have l: "lay_walls (p_walls preset) ?w ?h ?m1 = Inr ?m2"
    using wf1 nn by (rule lay_walls_ok)
  have wf2: "well_formed ?m2 ?w ?h"
    using wf1 by (rule well_formed_upd_cells) simp
  have g: "\<And>zz xx. in_grid (init_grid ?w ?h False) zz xx \<longleftrightarrow> 0 \<le> zz \<and> zz < ?h \<and> 0 \<le> xx \<and> xx < ?w"
    using coords_init_grid by (rule in_grid_well_formed)
  show ?thesis
    unfolding build_preset_def Let_def r bindE_Inr l
    using assms(1,2) by (simp add: modify_cell_def g bindE_Inr finish_preset_def)
qed

lemma finish_preset_well_formed: "well_formed (finish_preset preset) (p_width preset) (p_height preset)"
  unfolding finish_preset_def
  by (intro well_formed_upd well_formed_upd_cells coords_init_grid) simp_all

lemma cell_at_finish_preset:
  assumes "3 \<le> p_width preset" "3 \<le> p_height preset"
    and r: "0 \<le> zz" "zz < p_height preset" "0 \<le> xx" "xx < p_width preset"
  shows "cell_at (finish_preset preset) zz xx =
           \<lparr>cx = xx, cz = zz,
            isWall = ((zz = 0 \<or> zz = p_height preset - 1 \<or> xx = 0 \<or> xx = p_width preset - 1
                       \<or> (zz, xx) \<in> set (p_walls preset))
                      \<and> \<not> (zz = 1 \<and> xx = 1) \<and> \<not> (zz = p_height preset - 2 \<and> xx = p_width preset - 2)),
            isStart = (zz = 1 \<and> xx = 1),
            isEnd = (zz = p_height preset - 2 \<and> xx = p_width preset - 2),
            isPath = False, isVisited = False\<rparr>"
proof -
  let ?w = "p_width preset" and ?h = "p_height preset"
  have g: "in_grid (init_grid ?w ?h False) zz xx"
    using r by (simp add: in_grid_well_formed[OF coords_init_grid])
  show ?thesis
    unfolding finish_preset_def
    using g r assms(1,2)
    by (auto simp: cell_at_upd cell_at_upd_cells cell_at_init_grid ring_cells_mem)
qed

lemma preset_catalog:
  "preset \<in> set PRESET_MAZES \<Longrightarrow>
   p_width preset = 15 \<and> p_height preset = 15
   \<and> (\<forall>(zz, xx) \<in> set (p_walls preset). 0 \<le> zz \<and> zz < 15 \<and> 0 \<le> xx \<and> xx < 15)"
  by (auto simp: PRESET_MAZES_def)

lemma array_get_Some: "array_get xs i = Some v \<Longrightarrow> v \<in> set xs"
  by (auto simp: array_get_def split: if_splits)

lemma createPresetMaze_cases:
  "(\<exists>preset \<in> set PRESET_MAZES.
      array_get PRESET_MAZES (js_rem presetIndex 3) = Some preset
      \<and> createPresetMaze presetIndex =
           Inr \<lparr>r_maze = finish_preset preset, r_start = \<lparr>px = 1, pz = 1\<rparr>,
                r_end = \<lparr>px = 13, pz = 13\<rparr>, r_width = 15, r_height = 15\<rparr>)
   \<or> (array_get PRESET_MAZES (js_rem presetIndex 3) = None \<and> createPresetMaze presetIndex = Inl TypeError)"
proof (cases "array_get PRESET_MAZES (js_rem presetIndex 3)")
  case None
  then show ?thesis by (simp add: createPresetMaze_def PRESET_MAZES_def)
next
  case (Some preset)
  then have m: "preset \<in> set PRESET_MAZES" by (rule array_get_Some)
  from preset_catalog[OF m] have d: "p_width preset = 15" "p_height preset = 15"
    and nn: "\<And>zz xx. (zz, xx) \<in> set (p_walls preset) \<Longrightarrow> 0 \<le> zz \<and> 0 \<le> xx" by auto
  have "build_preset preset =
           Inr \<lparr>r_maze = finish_preset preset, r_start = \<lparr>px = 1, pz = 1\<rparr>,
                r_end = \<lparr>px = p_width preset - 2, pz = p_height preset - 2\<rparr>,
                r_width = p_width preset, r_height = p_height preset\<rparr>"
    by (rule build_preset_eq) (use d nn in simp_all)
  moreover have "length PRESET_MAZES = 3" by (simp add: PRESET_MAZES_def)
  ultimately show ?thesis using Some m d by (simp add: createPresetMaze_def)
qed

section \<open>Properties of the generated mazes\<close>

text \<open>
  What both generators promise about a grid of the given dimensions: the start cell \<open>(1,1)\<close>
  and the end cell \<open>(width-2, height-2)\<close> exist, are open and carry their flag, and every
  cell of the boundary ring exists and is a wall.
\<close>

definition generated_ok :: "maze \<Rightarrow> int \<Rightarrow> int \<Rightarrow> bool" where
  "generated_ok m width height \<longleftrightarrow>
     in_grid m 1 1 \<and> \<not> isWall (cell_at m 1 1) \<and> isStart (cell_at m 1 1)
     \<and> in_grid m (height - 2) (width - 2)
     \<and> \<not> isWall (cell_at m (height - 2) (width - 2)) \<and> isEnd (cell_at m (height - 2) (width - 2))
     \<and> (\<forall>zz \<in> {0..<height}. \<forall>xx \<in> {0..<width}.
           xx = 0 \<or> xx = width - 1 \<or> zz = 0 \<or> zz = height - 1 \<longrightarrow>
           in_grid m zz xx \<and> isWall (cell_at m zz xx))"

lemma generated_ok_ring:
  "generated_ok m w h \<Longrightarrow> 0 \<le> zz \<Longrightarrow> zz < h \<Longrightarrow> 0 \<le> xx \<Longrightarrow> xx < w \<Longrightarrow>
   xx = 0 \<or> xx = w - 1 \<or> zz = 0 \<or> zz = h - 1 \<Longrightarrow> isWall (cell_at m zz xx)"
  unfolding generated_ok_def by (elim conjE) (drule bspec[of _ _ zz], simp, drule bspec[of _ _ xx], simp, blast)

lemma generateRandomMaze_ok:
  assumes "4 \<le> w" "4 \<le> h"
  shows "\<exists>r. generateRandomMaze rnd w h = Inr r \<and> r_start r = \<lparr>px = 1, pz = 1\<rparr>
            \<and> r_end r = \<lparr>px = w - 2, pz = h - 2\<rparr> \<and> generated_ok (r_maze r) w h"
proof -
  from generateRandomMaze_eq[OF assms, of rnd] obtain m1 k where
    cv: "carved w h (init_grid w h True) m1"
    and eq: "generateRandomMaze rnd w h =
               Inr \<lparr>r_maze = finish_random w h m1, r_start = \<lparr>px = 1, pz = 1\<rparr>,
                    r_end = \<lparr>px = w - 2, pz = h - 2\<rparr>\<rparr>" by blast
  note p = finish_random_props[OF assms cv]
  have g: "\<And>zz xx. in_grid (finish_random w h m1) zz xx \<longleftrightarrow> 0 \<le> zz \<and> zz < h \<and> 0 \<le> xx \<and> xx < w"
    using p(1) by (rule in_grid_well_formed)
  have "generated_ok (finish_random w h m1) w h"
    unfolding generated_ok_def
    using p(2-5) assms by (auto simp: g interior_def intro!: p(8))
  with eq show ?thesis by simp
qed

lemma createPresetMaze_ok:
  assumes "createPresetMaze i = Inr p"
  shows "r_start p = \<lparr>px = 1, pz = 1\<rparr> \<and> r_end p = \<lparr>px = r_width p - 2, pz = r_height p - 2\<rparr>
       \<and> generated_ok (r_maze p) (r_width p) (r_height p)"
proof -
  from createPresetMaze_cases[of i] assms obtain preset where
    m: "preset \<in> set PRESET_MAZES"
    and eq: "p = \<lparr>r_maze = finish_preset preset, r_start = \<lparr>px = 1, pz = 1\<rparr>,
                r_end = \<lparr>px = 13, pz = 13\<rparr>, r_width = 15, r_height = 15\<rparr>" by auto
  from preset_catalog[OF m] have d: "p_width preset = 15" "p_height preset = 15" by simp_all
  have g: "\<And>zz xx. in_grid (finish_preset preset) zz xx \<longleftrightarrow> 0 \<le> zz \<and> zz < 15 \<and> 0 \<le> xx \<and> xx < 15"
    using in_grid_well_formed[OF finish_preset_well_formed[of preset]] by (simp add: d)
  have c: "\<And>zz xx. 0 \<le> zz \<Longrightarrow> zz < 15 \<Longrightarrow> 0 \<le> xx \<Longrightarrow> xx < 15 \<Longrightarrow>
             cell_at (finish_preset preset) zz xx =
           \<lparr>cx = xx, cz = zz,
            isWall = ((zz = 0 \<or> zz = 14 \<or> xx = 0 \<or> xx = 14 \<or> (zz, xx) \<in> set (p_walls preset))
                      \<and> \<not> (zz = 1 \<and> xx = 1) \<and> \<not> (zz = 13 \<and> xx = 13)),
            isStart = (zz = 1 \<and> xx = 1), isEnd = (zz = 13 \<and> xx = 13),
            isPath = False, isVisited = False\<rparr>"
    using cell_at_finish_preset[of preset] by (simp add: d)
  have "generated_ok (finish_preset preset) 15 15"
    unfolding generated_ok_def by (auto simp: g c)
  with eq show ?thesis by simp
qed

lemma createPresetMaze_nonneg: "0 \<le> i \<Longrightarrow> \<exists>p. createPresetMaze i = Inr p"
proof -
  assume "0 \<le> i"
  then have "0 \<le> js_rem i 3" "js_rem i 3 < 3" by (simp_all add: js_rem_def)
  then have "array_get PRESET_MAZES (js_rem i 3) \<noteq> None"
    by (simp add: array_get_def PRESET_MAZES_def)
  with createPresetMaze_cases[of i] show ?thesis by auto
qed

text \<open>
  Claim C1. For odd \<open>width\<close> and \<open>height\<close> of at least 11 and any random draws,
  \<open>generateRandomMaze\<close> returns a maze whose start cell \<open>(1,1)\<close> and end cell
  \<open>(width-2, height-2)\<close> are open and flagged \<open>isStart\<close> and \<open>isEnd\<close>, and whose boundary ring
  is all wall; the same holds of every maze that \<open>createPresetMaze\<close> returns, and it returns
  one for every index from 0 on.
\<close>

theorem generators_start_end_ring:
  "(odd w \<and> 11 \<le> w \<and> odd h \<and> 11 \<le> h \<longrightarrow>
      (\<exists>r. generateRandomMaze rnd w h = Inr r \<and> r_start r = \<lparr>px = 1, pz = 1\<rparr>
          \<and> r_end r = \<lparr>px = w - 2, pz = h - 2\<rparr> \<and> generated_ok (r_maze r) w h))
   \<and> (createPresetMaze i = Inr p \<longrightarrow>
        r_start p = \<lparr>px = 1, pz = 1\<rparr> \<and> r_end p = \<lparr>px = r_width p - 2, pz = r_height p - 2\<rparr>
        \<and> generated_ok (r_maze p) (r_width p) (r_height p))
   \<and> (0 \<le> i \<longrightarrow> (\<exists>p. createPresetMaze i = Inr p))"
  using generateRandomMaze_ok[of w h rnd] createPresetMaze_ok[of i p] createPresetMaze_nonneg[of i]
  by auto

theorem generators_start_end_ring_witness:
  "odd (11::int) \<and> (11::int) \<le> 11
   \<and> (\<exists>r. generateRandomMaze (\<lambda>n. n) 11 11 = Inr r \<and> r_end r = \<lparr>px = 9, pz = 9\<rparr>
         \<and> \<not> isWall (cell_at (r_maze r) 1 1) \<and> isStart (cell_at (r_maze r) 1 1)
         \<and> \<not> isWall (cell_at (r_maze r) 9 9) \<and> isEnd (cell_at (r_maze r) 9 9)
         \<and> isWall (cell_at (r_maze r) 0 5) \<and> isWall (cell_at (r_maze r) 10 10))
   \<and> (\<exists>p. createPresetMaze 1 = Inr p \<and> r_end p = \<lparr>px = 13, pz = 13\<rparr>
         \<and> \<not> isWall (cell_at (r_maze p) 1 1) \<and> isStart (cell_at (r_maze p) 1 1)
         \<and> \<not> isWall (cell_at (r_maze p) 13 13) \<and> isEnd (cell_at (r_maze p) 13 13)
         \<and> isWall (cell_at (r_maze p) 14 3) \<and> isWall (cell_at (r_maze p) 6 0))"
proof -
  have a: "odd (11::int) \<and> (11::int) \<le> 11" by simp
  from generators_start_end_ring[of 11 11 "\<lambda>n. n" 1] a obtain r where
    r: "generateRandomMaze (\<lambda>n. n) 11 11 = Inr r" "r_end r = \<lparr>px = 9, pz = 9\<rparr>"
       "generated_ok (r_maze r) 11 11" by auto
  from generators_start_end_ring[of 11 11 "\<lambda>n. n" 1] obtain p where p: "createPresetMaze 1 = Inr p"
    by auto
  from generators_start_end_ring[of 11 11 "\<lambda>n. n" 1 p] p createPresetMaze_cases[of 1]
  have q: "r_end p = \<lparr>px = 13, pz = 13\<rparr>" "generated_ok (r_maze p) 15 15" by auto
  have "isWall (cell_at (r_maze r) 0 5)" "isWall (cell_at (r_maze r) 10 10)"
    by (rule generated_ok_ring[OF r(3)]; simp)+
  moreover have "isWall (cell_at (r_maze p) 14 3)" "isWall (cell_at (r_maze p) 6 0)"
    by (rule generated_ok_ring[OF q(2)]; simp)+
  moreover from r q have "\<not> isWall (cell_at (r_maze r) 1 1) \<and> isStart (cell_at (r_maze r) 1 1)
         \<and> \<not> isWall (cell_at (r_maze r) 9 9) \<and> isEnd (cell_at (r_maze r) 9 9)
         \<and> \<not> isWall (cell_at (r_maze p) 1 1) \<and> isStart (cell_at (r_maze p) 1 1)
         \<and> \<not> isWall (cell_at (r_maze p) 13 13) \<and> isEnd (cell_at (r_maze p) 13 13)"
    unfolding generated_ok_def by simp
  ultimately show ?thesis using a r p q by blast
qed


text \<open>
  Claim C9. For odd \<open>width\<close> and \<open>height\<close> of at least 11, \<open>generateRandomMaze\<close> returns a maze
  in which both the cell above the end cell, \<open>(end.x, end.z - 1)\<close>, and the cell to its left,
  \<open>(end.x - 1, end.z)\<close>, are open.
\<close>

theorem end_neighbours_open:
  assumes "odd w" "11 \<le> w" "odd h" "11 \<le> h"
  shows "\<exists>r. generateRandomMaze rnd w h = Inr r \<and> r_end r = \<lparr>px = w - 2, pz = h - 2\<rparr>
            \<and> in_grid (r_maze r) (pz (r_end r) - 1) (px (r_end r))
            \<and> \<not> isWall (cell_at (r_maze r) (pz (r_end r) - 1) (px (r_end r)))
            \<and> in_grid (r_maze r) (pz (r_end r)) (px (r_end r) - 1)
            \<and> \<not> isWall (cell_at (r_maze r) (pz (r_end r)) (px (r_end r) - 1))"
proof -
  from assms have b: "4 \<le> w" "4 \<le> h" by simp_all
  from generateRandomMaze_eq[OF b, of rnd] obtain m1 k where
    cv: "carved w h (init_grid w h True) m1"
    and eq: "generateRandomMaze rnd w h =
               Inr \<lparr>r_maze = finish_random w h m1, r_start = \<lparr>px = 1, pz = 1\<rparr>,
                    r_end = \<lparr>px = w - 2, pz = h - 2\<rparr>\<rparr>" by blast
  note p = finish_random_props[OF b cv]
  have g: "\<And>zz xx. in_grid (finish_random w h m1) zz xx \<longleftrightarrow> 0 \<le> zz \<and> zz < h \<and> 0 \<le> xx \<and> xx < w"
    using p(1) by (rule in_grid_well_formed)
  have "h - 2 - 1 = h - 3" "w - 2 - 1 = w - 3" by simp_all
  with eq p(6,7) b show ?thesis by (simp add: g)
qed

theorem end_neighbours_open_witness:
  "odd (11::int) \<and> (11::int) \<le> 11
   \<and> (\<exists>r. generateRandomMaze (\<lambda>n. 3 * n + 1) 11 11 = Inr r
         \<and> \<not> isWall (cell_at (r_maze r) 8 9) \<and> \<not> isWall (cell_at (r_maze r) 9 8))"
proof -
  have a: "odd (11::int)" "(11::int) \<le> 11" by simp_all
  from end_neighbours_open[OF a a, of "\<lambda>n. 3 * n + 1"] a show ?thesis by auto
qed

text \<open>
  Claim C6, at the input \<open>-1\<close>. The remainder \<open>-1 % 3\<close> is \<open>-1\<close>, \<open>PRESET_MAZES[-1]\<close> is
  \<open>undefined\<close>, and destructuring it throws: \<open>loadPresetMaze(-1)\<close> ends in a \<open>TypeError\<close> and
  the session keeps its maze.
\<close>

theorem loadPresetMaze_negative_throws:
  "js_rem (-1) 3 = -1 \<and> createPresetMaze (-1) = Inl TypeError
   \<and> loadPresetMaze (-1) s = Inl TypeError \<and> after_action (LoadPresetMaze (-1)) s = s"
proof -
  have "js_rem (-1) 3 = -1" by (simp add: js_rem_def)
  moreover have "length PRESET_MAZES = 3" by (simp add: PRESET_MAZES_def)
  ultimately have "createPresetMaze (-1) = Inl TypeError"
    by (simp add: createPresetMaze_def array_get_def)
  then show ?thesis
    by (simp add: js_rem_def loadPresetMaze_def bindE_Inl after_action_def)
qed



section \<open>The grid-shape invariant of the store\<close>

text \<open>
  \<open>initial_store\<close> is the state the store starts from, written out; \<open>initial_state_eq\<close> shows
  that it is what the module-level code computes. \<open>grid_shape_inv\<close> is the invariant in the
  words of the claim; \<open>shape_ok\<close> is the same in terms of \<open>well_formed\<close>.
\<close>

definition initial_store :: MazeState where
  "initial_store =
     \<lparr>phase = Menu, selectedAlgorithm = None, maze = finish_preset (PRESET_MAZES ! 0),
      mazeWidth = 15, mazeHeight = 15,
      startPos = \<lparr>px = 1, pz = 1\<rparr>, endPos = \<lparr>px = 13, pz = 13\<rparr>,
      path = [], visitedCells = [], ballPosition = \<lparr>px = 1, pz = 1\<rparr>,
      pathIndex = 0, stats = None, visualizationMode = Instant,
      difficulty = Medium, visualizationIndex = 0\<rparr>"

definition grid_shape_inv :: "MazeState \<Rightarrow> bool" where
  "grid_shape_inv s \<longleftrightarrow>
     int (length (maze s)) = mazeHeight s
     \<and> (\<forall>zz \<in> {0..<length (maze s)}.
           int (length (maze s ! zz)) = mazeWidth s
           \<and> (\<forall>xx \<in> {0..<length (maze s ! zz)}.
                 cx (maze s ! zz ! xx) = int xx \<and> cz (maze s ! zz ! xx) = int zz))"

lemma initial_state_eq: "initial_state = Inr initial_store"
proof -
  have "js_rem 0 3 = 0" by (simp add: js_rem_def)
  then have "array_get PRESET_MAZES (js_rem 0 3) = Some (PRESET_MAZES ! 0)"
    by (simp add: array_get_def PRESET_MAZES_def)
  with createPresetMaze_cases[of 0]
  have "createPresetMaze 0 =
           Inr \<lparr>r_maze = finish_preset (PRESET_MAZES ! 0), r_start = \<lparr>px = 1, pz = 1\<rparr>,
                r_end = \<lparr>px = 13, pz = 13\<rparr>, r_width = 15, r_height = 15\<rparr>"
    by auto
  then show ?thesis by (simp add: initial_state_def initial_store_def bindE_Inr)
qed

lemma grid_shape_inv_iff:
  "grid_shape_inv s \<longleftrightarrow>
     well_formed (maze s) (mazeWidth s) (mazeHeight s) \<and> 0 \<le> mazeHeight s
     \<and> (0 \<le> mazeWidth s \<or> mazeHeight s = 0)"
proof
  assume a: "grid_shape_inv s"
  then have h: "int (length (maze s)) = mazeHeight s" by (simp add: grid_shape_inv_def)
  from a have r: "\<And>zz. zz < length (maze s) \<Longrightarrow> int (length (maze s ! zz)) = mazeWidth s"
    and c: "\<And>zz xx. zz < length (maze s) \<Longrightarrow> xx < length (maze s ! zz) \<Longrightarrow>
              cx (maze s ! zz ! xx) = int xx \<and> cz (maze s ! zz ! xx) = int zz"
    by (simp_all add: grid_shape_inv_def)
  have "well_formed (maze s) (mazeWidth s) (mazeHeight s)"
  proof (rule well_formedI)
    show "length (maze s) = nat (mazeHeight s)" using h by simp
  next
    fix zz assume "zz < nat (mazeHeight s)"
    then have "zz < length (maze s)" using h by simp
    from r[OF this] show "length (maze s ! zz) = nat (mazeWidth s)" by simp
  next
    fix zz xx assume "zz < nat (mazeHeight s)" "xx < nat (mazeWidth s)"
    then have z: "zz < length (maze s)" using h by simp
    with r[OF z] \<open>xx < nat (mazeWidth s)\<close> have "xx < length (maze s ! zz)" by simp
    from c[OF z this] show "cx (maze s ! zz ! xx) = int xx \<and> cz (maze s ! zz ! xx) = int zz" .
  qed
  moreover have "0 \<le> mazeHeight s" using h by simp
  moreover have "0 \<le> mazeWidth s \<or> mazeHeight s = 0"
  proof (cases "length (maze s)")
    case 0
    then show ?thesis using h by simp
  next
    case (Suc n)
    then have "0 < length (maze s)" by simp
    from r[OF this] show ?thesis by simp
  qed
  ultimately show "well_formed (maze s) (mazeWidth s) (mazeHeight s) \<and> 0 \<le> mazeHeight s
     \<and> (0 \<le> mazeWidth s \<or> mazeHeight s = 0)" by simp
next
  assume a: "well_formed (maze s) (mazeWidth s) (mazeHeight s) \<and> 0 \<le> mazeHeight s
     \<and> (0 \<le> mazeWidth s \<or> mazeHeight s = 0)"
  then have wf: "well_formed (maze s) (mazeWidth s) (mazeHeight s)" by simp
  have l: "length (maze s) = nat (mazeHeight s)" using wf by (rule well_formed_length)
  show "grid_shape_inv s"
    unfolding grid_shape_inv_def
  proof (intro conjI ballI)
    show "int (length (maze s)) = mazeHeight s" using l a by simp
  next
    fix zz assume "zz \<in> {0..<length (maze s)}"
    then have z: "zz < nat (mazeHeight s)" using l by simp
    with a have "0 \<le> mazeWidth s" by auto
    with well_formed_row[OF wf z] show "int (length (maze s ! zz)) = mazeWidth s" by simp
  next
    fix zz xx assume "zz \<in> {0..<length (maze s)}" "xx \<in> {0..<length (maze s ! zz)}"
    then have z: "zz < nat (mazeHeight s)" and "xx < length (maze s ! zz)" using l by simp_all
    with well_formed_row[OF wf z] have x: "xx < nat (mazeWidth s)" by simp
    from well_formed_cell[OF wf z x] show "cx (maze s ! zz ! xx) = int xx" by simp
    from well_formed_cell[OF wf z x] show "cz (maze s ! zz ! xx) = int zz" by simp
  qed
qed

lemma coords_map_map:
  "(\<And>c. cx (g c) = cx c \<and> cz (g c) = cz c) \<Longrightarrow> coords (map (map g) m) = coords m"
  by (simp add: coords_def comp_def)

lemma coords_mark_cells:
  "(\<And>c. cx (f c) = cx c \<and> cz (f c) = cz c) \<Longrightarrow> coords (mark_cells f p m) = coords m"
  by (simp add: mark_cells_upd_cells coords_upd_cells)

lemma DIFFICULTY_SIZES_bounds: "4 \<le> fst (DIFFICULTY_SIZES d) \<and> 4 \<le> snd (DIFFICULTY_SIZES d)"
  by (cases d) simp_all

lemma generateRandomMaze_well_formed:
  assumes "4 \<le> w" "4 \<le> h"
  shows "\<exists>r. generateRandomMaze rnd w h = Inr r \<and> well_formed (r_maze r) w h"
proof -
  from generateRandomMaze_eq[OF assms, of rnd] obtain m1 k where
    cv: "carved w h (init_grid w h True) m1"
    and eq: "generateRandomMaze rnd w h =
               Inr \<lparr>r_maze = finish_random w h m1, r_start = \<lparr>px = 1, pz = 1\<rparr>,
                    r_end = \<lparr>px = w - 2, pz = h - 2\<rparr>\<rparr>" by blast
  from finish_random_props(1)[OF assms cv] eq show ?thesis by simp
qed

definition shape_ok :: "MazeState \<Rightarrow> bool" where
  "shape_ok s \<longleftrightarrow> well_formed (maze s) (mazeWidth s) (mazeHeight s) \<and> 0 \<le> mazeHeight s
     \<and> (0 \<le> mazeWidth s \<or> mazeHeight s = 0)"

lemma shape_ok_same:
  "shape_ok s \<Longrightarrow> coords (maze s') = coords (maze s) \<Longrightarrow> mazeWidth s' = mazeWidth s \<Longrightarrow>
   mazeHeight s' = mazeHeight s \<Longrightarrow> shape_ok s'"
  by (simp add: shape_ok_def well_formed_def)

lemma shape_ok_fresh:
  "well_formed (maze s') (mazeWidth s') (mazeHeight s') \<Longrightarrow> 4 \<le> mazeWidth s' \<Longrightarrow>
   4 \<le> mazeHeight s' \<Longrightarrow> shape_ok s'"
  by (simp add: shape_ok_def)

lemma advanceVisualization_coords:
  "coords (maze (snd (advanceVisualization s))) = coords (maze s)
   \<and> mazeWidth (snd (advanceVisualization s)) = mazeWidth s
   \<and> mazeHeight (snd (advanceVisualization s)) = mazeHeight s"
  by (simp add: advanceVisualization_def Let_def coords_mark_cells coords_upd)

lemma random_action_shape_ok:
  assumes "generateRandomMaze rnd (fst (DIFFICULTY_SIZES d)) (snd (DIFFICULTY_SIZES d)) = Inr r"
  shows "well_formed (r_maze r) (fst (DIFFICULTY_SIZES d)) (snd (DIFFICULTY_SIZES d))"
  using generateRandomMaze_well_formed[of "fst (DIFFICULTY_SIZES d)" "snd (DIFFICULTY_SIZES d)" rnd]
    DIFFICULTY_SIZES_bounds[of d] assms by auto

lemma bindE_Inr_iff: "bindE r f = Inr v \<longleftrightarrow> (\<exists>u. r = Inr u \<and> f u = Inr v)"
  by (cases r) (simp_all add: bindE_def)

lemma run_action_shape_ok:
  assumes "shape_ok s" "run_action a s = Inr s'"
  shows "shape_ok s'"
proof (cases a)
  case (SetPath p)
  with assms(2) have "coords (maze s') = coords (maze s)" "mazeWidth s' = mazeWidth s" "mazeHeight s' = mazeHeight s"
    by (auto simp: setPath_def Let_def coords_mark_cells coords_map_map)
  with assms(1) show ?thesis by (rule shape_ok_same)
next
  case (SetVisitedCells p)
  with assms(2) have "coords (maze s') = coords (maze s)" "mazeWidth s' = mazeWidth s" "mazeHeight s' = mazeHeight s"
    by (auto simp: setVisitedCells_def Let_def coords_mark_cells coords_map_map)
  with assms(1) show ?thesis by (rule shape_ok_same)
next
  case StartVisualization
  with assms(2) have "coords (maze s') = coords (maze s)" "mazeWidth s' = mazeWidth s" "mazeHeight s' = mazeHeight s"
    by (auto simp: startVisualization_def Let_def coords_map_map)
  with assms(1) show ?thesis by (rule shape_ok_same)
next
  case AdvanceVisualization
  with assms(2) advanceVisualization_coords[of s]
  have "coords (maze s') = coords (maze s)" "mazeWidth s' = mazeWidth s" "mazeHeight s' = mazeHeight s"
    by auto
  with assms(1) show ?thesis by (rule shape_ok_same)
next
  case (Restart rnd)
  with assms(2) obtain r where
    r: "generateRandomMaze rnd (fst (DIFFICULTY_SIZES (difficulty s))) (snd (DIFFICULTY_SIZES (difficulty s))) = Inr r"
    and s': "maze s' = r_maze r" "mazeWidth s' = fst (DIFFICULTY_SIZES (difficulty s))"
      "mazeHeight s' = snd (DIFFICULTY_SIZES (difficulty s))"
    by (auto simp: restart_def Let_def bindE_Inr_iff)
  from random_action_shape_ok[OF r] s' DIFFICULTY_SIZES_bounds[of "difficulty s"]
  show ?thesis by (intro shape_ok_fresh) simp_all
next
  case (GenerateMaze rnd)
  with assms(2) obtain r where
    r: "generateRandomMaze rnd (fst (DIFFICULTY_SIZES (difficulty s))) (snd (DIFFICULTY_SIZES (difficulty s))) = Inr r"
    and s': "maze s' = r_maze r" "mazeWidth s' = fst (DIFFICULTY_SIZES (difficulty s))"
      "mazeHeight s' = snd (DIFFICULTY_SIZES (difficulty s))"
    by (auto simp: generateMaze_def Let_def bindE_Inr_iff)
  from random_action_shape_ok[OF r] s' DIFFICULTY_SIZES_bounds[of "difficulty s"]
  show ?thesis by (intro shape_ok_fresh) simp_all
next
  case (LoadPresetMaze i)
  with assms(2) obtain r where r: "createPresetMaze i = Inr r"
    and s': "maze s' = r_maze r" "mazeWidth s' = r_width r" "mazeHeight s' = r_height r"
    by (auto simp: loadPresetMaze_def bindE_Inr_iff)
  from createPresetMaze_cases[of i] r obtain preset where
    m: "preset \<in> set PRESET_MAZES"
    and eq: "r = \<lparr>r_maze = finish_preset preset, r_start = \<lparr>px = 1, pz = 1\<rparr>,
                r_end = \<lparr>px = 13, pz = 13\<rparr>, r_width = 15, r_height = 15\<rparr>"
    by auto
  from preset_catalog[OF m] finish_preset_well_formed[of preset]
  have "well_formed (finish_preset preset) 15 15" by simp
  with s' eq show ?thesis by (intro shape_ok_fresh) simp_all
next
  case (SetAlgorithm x)
  with assms(2) have "coords (maze s') = coords (maze s)" "mazeWidth s' = mazeWidth s" "mazeHeight s' = mazeHeight s"
    by (auto simp: setAlgorithm_def)
  with assms(1) show ?thesis by (rule shape_ok_same)
next
  case (SetVisualizationMode x)
  with assms(2) have "coords (maze s') = coords (maze s)" "mazeWidth s' = mazeWidth s" "mazeHeight s' = mazeHeight s"
    by (auto simp: setVisualizationMode_def)
  with assms(1) show ?thesis by (rule shape_ok_same)
next
  case (SetDifficulty x)
  with assms(2) have "coords (maze s') = coords (maze s)" "mazeWidth s' = mazeWidth s" "mazeHeight s' = mazeHeight s"
    by (auto simp: setDifficulty_def)
  with assms(1) show ?thesis by (rule shape_ok_same)
next
  case StartGame
  with assms(2) have "coords (maze s') = coords (maze s)" "mazeWidth s' = mazeWidth s" "mazeHeight s' = mazeHeight s"
    by (auto simp: startGame_def)
  with assms(1) show ?thesis by (rule shape_ok_same)
next
  case (StoreVisitedCells x)
  with assms(2) have "coords (maze s') = coords (maze s)" "mazeWidth s' = mazeWidth s" "mazeHeight s' = mazeHeight s"
    by (auto simp: storeVisitedCells_def)
  with assms(1) show ?thesis by (rule shape_ok_same)
next
  case (SetStats x)
  with assms(2) have "coords (maze s') = coords (maze s)" "mazeWidth s' = mazeWidth s" "mazeHeight s' = mazeHeight s"
    by (auto simp: setStats_def)
  with assms(1) show ?thesis by (rule shape_ok_same)
next
  case StartMoving
  with assms(2) have "coords (maze s') = coords (maze s)" "mazeWidth s' = mazeWidth s" "mazeHeight s' = mazeHeight s"
    by (auto simp: startMoving_def)
  with assms(1) show ?thesis by (rule shape_ok_same)
next
  case MoveBall
  with assms(2) have "coords (maze s') = coords (maze s)" "mazeWidth s' = mazeWidth s" "mazeHeight s' = mazeHeight s"
    by (auto simp: moveBall_def)
  with assms(1) show ?thesis by (rule shape_ok_same)
next
  case Complete
  with assms(2) have "coords (maze s') = coords (maze s)" "mazeWidth s' = mazeWidth s" "mazeHeight s' = mazeHeight s"
    by (auto simp: complete_def)
  with assms(1) show ?thesis by (rule shape_ok_same)
qed

lemma after_action_cases:
  "(run_action a s = Inr (after_action a s)) \<or> (\<exists>e. run_action a s = Inl e \<and> after_action a s = s)"
  by (cases "run_action a s") (simp_all add: after_action_def)

lemma after_action_shape_ok: "shape_ok s \<Longrightarrow> shape_ok (after_action a s)"
  using after_action_cases[of a s] run_action_shape_ok[of s a "after_action a s"] by auto

lemma after_actions_shape_ok: "shape_ok s \<Longrightarrow> shape_ok (after_actions as s)"
  unfolding after_actions_def
  by (induction as arbitrary: s) (simp_all add: after_action_shape_ok)

lemma initial_store_shape_ok: "shape_ok initial_store"
proof -
  have "PRESET_MAZES ! 0 \<in> set PRESET_MAZES" by (simp add: PRESET_MAZES_def)
  from preset_catalog[OF this] finish_preset_well_formed[of "PRESET_MAZES ! 0"]
  show ?thesis by (simp add: shape_ok_def initial_store_def)
qed

text \<open>
  Claim C10. The initial store state has a grid of exactly \<open>mazeHeight\<close> rows of exactly
  \<open>mazeWidth\<close> cells in which the cell at \<open>maze[z][x]\<close> has \<open>x\<close> and \<open>z\<close> as its fields, and
  every store action keeps this: whether it returns or throws (the store is then left as it
  was), and so after any sequence of actions.
\<close>

theorem store_preserves_grid_shape:
  "(\<exists>s0. initial_state = Inr s0 \<and> grid_shape_inv s0)
   \<and> (grid_shape_inv s \<longrightarrow>
        (\<forall>s'. run_action a s = Inr s' \<longrightarrow> grid_shape_inv s')
        \<and> grid_shape_inv (after_action a s)
        \<and> grid_shape_inv (after_actions as s))"
proof -
  have i: "grid_shape_inv t \<longleftrightarrow> shape_ok t" for t
    by (simp add: grid_shape_inv_iff shape_ok_def)
  show ?thesis
    unfolding i
    using initial_state_eq initial_store_shape_ok run_action_shape_ok[of s a]
      after_action_shape_ok[of s a] after_actions_shape_ok[of s as]
    by blast
qed

theorem store_preserves_grid_shape_witness:
  "initial_state = Inr initial_store \<and> grid_shape_inv initial_store
   \<and> run_action (SetVisitedCells [\<lparr>px = 3, pz = 2\<rparr>]) initial_store
        = Inr (setVisitedCells [\<lparr>px = 3, pz = 2\<rparr>] initial_store)
   \<and> grid_shape_inv (setVisitedCells [\<lparr>px = 3, pz = 2\<rparr>] initial_store)
   \<and> grid_shape_inv (after_action (SetVisitedCells [\<lparr>px = 3, pz = 2\<rparr>]) initial_store)
   \<and> grid_shape_inv (after_actions [SetPath [\<lparr>px = 1, pz = 1\<rparr>], StartVisualization, LoadPresetMaze 2]
                        initial_store)"
proof -
  from store_preserves_grid_shape[of initial_store "SetVisitedCells [\<lparr>px = 3, pz = 2\<rparr>]"
      "[SetPath [\<lparr>px = 1, pz = 1\<rparr>], StartVisualization, LoadPresetMaze 2]"]
  have g: "grid_shape_inv initial_store" by (auto simp: initial_state_eq)
  with store_preserves_grid_shape[of initial_store "SetVisitedCells [\<lparr>px = 3, pz = 2\<rparr>]"
      "[SetPath [\<lparr>px = 1, pz = 1\<rparr>], StartVisualization, LoadPresetMaze 2]"]
  show ?thesis by (simp add: initial_state_eq)
qed

section \<open>The visualization cursor and the path overlay\<close>

text \<open>
  \<open>path_overlay_sound\<close>: no cell outside the stored path carries \<open>isPath\<close>. \<open>cursor_safe\<close>
  describes the sequences of actions in which \<open>storeVisitedCells\<close> and \<open>setVisitedCells\<close>, which
  replace the list and leave the cursor alone, are only given a list at least as long as
  the cursor at that moment.
\<close>

definition no_path :: "maze \<Rightarrow> bool" where
  "no_path m \<longleftrightarrow> (\<forall>row \<in> set m. \<forall>c \<in> set row. \<not> isPath c)"

definition path_overlay_sound :: "MazeState \<Rightarrow> bool" where
  "path_overlay_sound s \<longleftrightarrow>
     (\<forall>zz xx. in_grid (maze s) zz xx \<and> isPath (cell_at (maze s) zz xx)
        \<longrightarrow> \<lparr>px = xx, pz = zz\<rparr> \<in> set (path s))"

fun cursor_safe :: "action list \<Rightarrow> MazeState \<Rightarrow> bool" where
  "cursor_safe [] s = True"
| "cursor_safe (a # as) s =
     ((case a of
         StoreVisitedCells cells \<Rightarrow> visualizationIndex s \<le> length cells
       | SetVisitedCells cells \<Rightarrow> visualizationIndex s \<le> length cells
       | _ \<Rightarrow> True)
      \<and> cursor_safe as (after_action a s))"

lemma no_path_iff: "no_path m \<longleftrightarrow> (\<forall>bs \<in> set (map (map isPath) m). \<forall>b \<in> set bs. \<not> b)"
  by (auto simp: no_path_def)

lemma no_path_eq: "map (map isPath) m' = map (map isPath) m \<Longrightarrow> no_path m \<Longrightarrow> no_path m'"
  by (simp only: no_path_iff)

lemma no_path_init_grid: "no_path (init_grid w h wall)"
  by (auto simp: no_path_def init_grid_def)

lemma no_path_cell: "no_path m \<Longrightarrow> in_grid m zz xx \<Longrightarrow> \<not> isPath (cell_at m zz xx)"
proof -
  assume a: "no_path m" "in_grid m zz xx"
  then have "m ! nat zz \<in> set m" by (simp add: in_grid_def)
  moreover from a have "m ! nat zz ! nat xx \<in> set (m ! nat zz)" by (simp add: in_grid_def)
  ultimately show ?thesis using a(1) unfolding no_path_def cell_at_def by blast
qed

lemma map_map_upd_cells:
  assumes "\<And>c. g (f c) = g c"
  shows "map (map g) (upd_cells f ps m) = map (map g) m"
proof (induction ps arbitrary: m)
  case Nil
  show ?case by simp
next
  case (Cons p ps)
  obtain a b where p: "p = (a, b)" by (cases p)
  show ?case unfolding p upd_cells_Cons Cons.IH using assms by (rule map_map_upd)
qed

lemma no_path_finish_preset: "no_path (finish_preset preset)"
proof -
  have "map (map isPath) (finish_preset preset)
          = map (map isPath) (init_grid (p_width preset) (p_height preset) False)"
    by (simp add: finish_preset_def map_map_upd map_map_upd_cells)
  then show ?thesis using no_path_init_grid by (rule no_path_eq)
qed

lemma no_path_generateRandomMaze:
  assumes "4 \<le> w" "4 \<le> h" "generateRandomMaze rnd w h = Inr r"
  shows "no_path (r_maze r)"
proof -
  from generateRandomMaze_eq[OF assms(1,2), of rnd] assms(3) obtain m1 where
    cv: "carved w h (init_grid w h True) m1" and eq: "r_maze r = finish_random w h m1" by auto
  have "map (map isPath) (finish_random w h m1) = map (map isPath) m1"
    by (simp add: finish_random_def map_map_upd)
  also have "\<dots> = map (map isPath) (init_grid w h True)"
    using cv by (rule carved_proj) simp
  finally show ?thesis unfolding eq using no_path_init_grid by (rule no_path_eq)
qed

lemma sound_same:
  "path_overlay_sound s \<Longrightarrow> maze s' = maze s \<Longrightarrow> path s' = path s \<Longrightarrow> path_overlay_sound s'"
  by (simp add: path_overlay_sound_def)

lemma sound_fresh: "no_path (maze s') \<Longrightarrow> path_overlay_sound s'"
  using no_path_cell[of "maze s'"] by (simp add: path_overlay_sound_def) blast

lemma in_grid_mark_cells [simp]: "in_grid (mark_cells f p m) zz xx = in_grid m zz xx"
  by (simp add: mark_cells_upd_cells)

lemma cell_at_mark_cells:
  "in_grid m zz xx \<Longrightarrow> (\<And>c. f (f c) = f c) \<Longrightarrow>
   cell_at (mark_cells f p m) zz xx
     = (if \<lparr>px = xx, pz = zz\<rparr> \<in> set p then f (cell_at m zz xx) else cell_at m zz xx)"
  by (simp add: mark_cells_upd_cells cell_at_upd_cells position_mem)

lemma soundI:
  "(\<And>zz xx. in_grid (maze s) zz xx \<Longrightarrow> isPath (cell_at (maze s) zz xx) \<Longrightarrow>
       \<lparr>px = xx, pz = zz\<rparr> \<in> set (path s)) \<Longrightarrow> path_overlay_sound s"
  by (simp add: path_overlay_sound_def)

lemma soundD:
  "path_overlay_sound s \<Longrightarrow> in_grid (maze s) zz xx \<Longrightarrow> isPath (cell_at (maze s) zz xx) \<Longrightarrow>
   \<lparr>px = xx, pz = zz\<rparr> \<in> set (path s)"
  by (simp add: path_overlay_sound_def)

lemma advanceVisualization_sound:
  assumes "path_overlay_sound s"
  shows "path_overlay_sound (snd (advanceVisualization s))"
proof (cases "visualizationIndex s < length (visitedCells s)")
  case True
  let ?c = "visitedCells s ! visualizationIndex s"
  let ?m = "upd_cell (maze s) (pz ?c) (px ?c) (\<lambda>c. c\<lparr>isVisited := True\<rparr>)"
  from True have e: "snd (advanceVisualization s)
      = s\<lparr>maze := ?m, visualizationIndex := visualizationIndex s + 1\<rparr>"
    by (simp add: advanceVisualization_def Let_def upd_cell_outside)
  show ?thesis
  proof (rule soundI)
    fix zz xx
    assume "in_grid (maze (snd (advanceVisualization s))) zz xx"
      and "isPath (cell_at (maze (snd (advanceVisualization s))) zz xx)"
    then have g: "in_grid (maze s) zz xx" and "isPath (cell_at ?m zz xx)" by (simp_all add: e)
    then have "isPath (cell_at (maze s) zz xx)" by (simp add: cell_at_upd split: if_splits)
    with assms g show "\<lparr>px = xx, pz = zz\<rparr> \<in> set (path (snd (advanceVisualization s)))"
      by (simp add: e soundD)
  qed
next
  case False
  then have e: "snd (advanceVisualization s)
      = s\<lparr>maze := mark_cells (\<lambda>c. c\<lparr>isPath := True\<rparr>) (path s) (maze s)\<rparr>"
    by (simp add: advanceVisualization_def)
  show ?thesis
  proof (rule soundI)
    fix zz xx
    assume "in_grid (maze (snd (advanceVisualization s))) zz xx"
      and "isPath (cell_at (maze (snd (advanceVisualization s))) zz xx)"
    then have g: "in_grid (maze s) zz xx"
      and p: "isPath (cell_at (mark_cells (\<lambda>c. c\<lparr>isPath := True\<rparr>) (path s) (maze s)) zz xx)"
      by (simp_all add: e)
    show "\<lparr>px = xx, pz = zz\<rparr> \<in> set (path (snd (advanceVisualization s)))"
    proof (cases "\<lparr>px = xx, pz = zz\<rparr> \<in> set (path s)")
      case True
      then show ?thesis by (simp add: e)
    next
      case False
      with p g have "isPath (cell_at (maze s) zz xx)" by (simp add: cell_at_mark_cells)
      with assms g show ?thesis by (simp add: e soundD)
    qed
  qed
qed

lemma run_action_sound:
  assumes "path_overlay_sound s" "run_action a s = Inr s'"
  shows "path_overlay_sound s'"
proof (cases a)
  case (SetPath p)
  with assms(2) have s': "s' = setPath p s" by simp
  show ?thesis
  proof (rule soundI)
    fix zz xx assume "in_grid (maze s') zz xx" and i: "isPath (cell_at (maze s') zz xx)"
    then have g: "in_grid (maze s) zz xx" by (simp add: s' setPath_def Let_def)
    from i show "\<lparr>px = xx, pz = zz\<rparr> \<in> set (path s')"
      by (simp add: s' setPath_def Let_def overlay_isPath[OF g])
  qed
next
  case (SetVisitedCells p)
  with assms(2) have s': "s' = setVisitedCells p s" by simp
  show ?thesis
  proof (rule soundI)
    fix zz xx assume "in_grid (maze s') zz xx" and i: "isPath (cell_at (maze s') zz xx)"
    then have g: "in_grid (maze s) zz xx" by (simp add: s' setVisitedCells_def Let_def)
    from i have "isPath (cell_at (maze s) zz xx)"
      by (simp add: s' setVisitedCells_def Let_def overlay_isVisited[OF g])
    with assms(1) g show "\<lparr>px = xx, pz = zz\<rparr> \<in> set (path s')"
      by (simp add: s' setVisitedCells_def Let_def soundD)
  qed
next
  case StartVisualization
  with assms(2) have s': "s' = startVisualization s" by simp
  show ?thesis
  proof (rule soundI)
    fix zz xx assume "in_grid (maze s') zz xx" and i: "isPath (cell_at (maze s') zz xx)"
    then have g: "in_grid (maze s) zz xx" by (simp add: s' startVisualization_def Let_def)
    from i show "\<lparr>px = xx, pz = zz\<rparr> \<in> set (path s')"
      by (simp add: s' startVisualization_def Let_def cell_at_map_map[OF g])
  qed
next
  case AdvanceVisualization
  with assms advanceVisualization_sound[of s] show ?thesis by simp
next
  case (Restart rnd)
  with assms(2) obtain r where
    r: "generateRandomMaze rnd (fst (DIFFICULTY_SIZES (difficulty s))) (snd (DIFFICULTY_SIZES (difficulty s))) = Inr r"
    and s': "maze s' = r_maze r"
    by (auto simp: restart_def Let_def bindE_Inr_iff)
  from no_path_generateRandomMaze[OF _ _ r] DIFFICULTY_SIZES_bounds[of "difficulty s"] s'
  show ?thesis by (intro sound_fresh) simp
next
  case (GenerateMaze rnd)
  with assms(2) obtain r where
    r: "generateRandomMaze rnd (fst (DIFFICULTY_SIZES (difficulty s))) (snd (DIFFICULTY_SIZES (difficulty s))) = Inr r"
    and s': "maze s' = r_maze r"
    by (auto simp: generateMaze_def Let_def bindE_Inr_iff)
  from no_path_generateRandomMaze[OF _ _ r] DIFFICULTY_SIZES_bounds[of "difficulty s"] s'
  show ?thesis by (intro sound_fresh) simp
next
  case (LoadPresetMaze i)
  with assms(2) obtain r where r: "createPresetMaze i = Inr r" and s': "maze s' = r_maze r"
    by (auto simp: loadPresetMaze_def bindE_Inr_iff)
  from createPresetMaze_cases[of i] r obtain preset where "r_maze r = finish_preset preset" by auto
  with s' no_path_finish_preset[of preset] show ?thesis by (intro sound_fresh) simp
next
  case (SetAlgorithm x)
  with assms(2) have "maze s' = maze s" "path s' = path s" by (auto simp: setAlgorithm_def)
  with assms(1) show ?thesis by (rule sound_same)
next
  case (SetVisualizationMode x)
  with assms(2) have "maze s' = maze s" "path s' = path s" by (auto simp: setVisualizationMode_def)
  with assms(1) show ?thesis by (rule sound_same)
next
  case (SetDifficulty x)
  with assms(2) have "maze s' = maze s" "path s' = path s" by (auto simp: setDifficulty_def)
  with assms(1) show ?thesis by (rule sound_same)
next
  case StartGame
  with assms(2) have "maze s' = maze s" "path s' = path s" by (auto simp: startGame_def)
  with assms(1) show ?thesis by (rule sound_same)
next
  case (StoreVisitedCells x)
  with assms(2) have "maze s' = maze s" "path s' = path s" by (auto simp: storeVisitedCells_def)
  with assms(1) show ?thesis by (rule sound_same)
next
  case (SetStats x)
  with assms(2) have "maze s' = maze s" "path s' = path s" by (auto simp: setStats_def)
  with assms(1) show ?thesis by (rule sound_same)
next
  case StartMoving
  with assms(2) have "maze s' = maze s" "path s' = path s" by (auto simp: startMoving_def)
  with assms(1) show ?thesis by (rule sound_same)
next
  case MoveBall
  with assms(2) have "maze s' = maze s" "path s' = path s" by (auto simp: moveBall_def)
  with assms(1) show ?thesis by (rule sound_same)
next
  case Complete
  with assms(2) have "maze s' = maze s" "path s' = path s" by (auto simp: complete_def)
  with assms(1) show ?thesis by (rule sound_same)
qed

lemma after_action_sound: "path_overlay_sound s \<Longrightarrow> path_overlay_sound (after_action a s)"
  using after_action_cases[of a s] run_action_sound[of s a "after_action a s"] by auto

lemma after_actions_sound: "path_overlay_sound s \<Longrightarrow> path_overlay_sound (after_actions as s)"
  unfolding after_actions_def
  by (induction as arbitrary: s) (simp_all add: after_action_sound)

lemma initial_store_sound: "path_overlay_sound initial_store"
  by (rule sound_fresh) (simp add: initial_store_def no_path_finish_preset)


definition cursor_bounded :: "MazeState \<Rightarrow> bool" where
  "cursor_bounded s \<longleftrightarrow> visualizationIndex s \<le> length (visitedCells s)"

lemma fresh_cursor:
  "run_action a s = Inr t \<Longrightarrow> a = Restart rnd \<or> a = GenerateMaze rnd \<or> a = LoadPresetMaze i \<Longrightarrow>
   cursor_bounded t"
  by (auto simp: restart_def generateMaze_def loadPresetMaze_def Let_def bindE_Inr_iff
      cursor_bounded_def)

lemma run_action_cursor:
  assumes "cursor_bounded s" "cursor_safe [a] s"
  shows "cursor_bounded (after_action a s)"
proof (cases a)
  case AdvanceVisualization
  with assms(1) show ?thesis
    by (simp add: after_action_def advanceVisualization_def Let_def cursor_bounded_def)
next
  case (Restart rnd)
  with after_action_cases[of a s] fresh_cursor[of a s "after_action a s" rnd] assms(1)
  show ?thesis by auto
next
  case (GenerateMaze rnd)
  with after_action_cases[of a s] fresh_cursor[of a s "after_action a s" rnd] assms(1)
  show ?thesis by auto
next
  case (LoadPresetMaze i)
  with after_action_cases[of a s] fresh_cursor[of a s "after_action a s" _ i] assms(1)
  show ?thesis by auto
qed (use assms in \<open>simp_all add: after_action_def cursor_bounded_def setAlgorithm_def
      setVisualizationMode_def setDifficulty_def startGame_def setPath_def setVisitedCells_def
      storeVisitedCells_def setStats_def startVisualization_def startMoving_def moveBall_def
      complete_def Let_def\<close>)

lemma after_actions_cursor:
  "cursor_bounded s \<Longrightarrow> cursor_safe as s \<Longrightarrow> cursor_bounded (after_actions as s)"
  unfolding after_actions_def
proof (induction as arbitrary: s)
  case Nil
  then show ?case by simp
next
  case (Cons a as)
  from Cons.prems have "cursor_safe [a] s" "cursor_safe as (after_action a s)" by simp_all
  with Cons.prems(1) have "cursor_bounded (after_action a s)" by (simp add: run_action_cursor)
  from Cons.IH[OF this \<open>cursor_safe as (after_action a s)\<close>] show ?case by simp
qed

lemma advanceVisualization_exhausted:
  assumes "path_overlay_sound s" "length (visitedCells s) \<le> visualizationIndex s"
  shows "advanceVisualization s
           = (False, s\<lparr>maze := mark_cells (\<lambda>c. c\<lparr>isPath := True\<rparr>) (path s) (maze s)\<rparr>)"
    and "in_grid (maze s) zz xx \<Longrightarrow>
           isPath (cell_at (mark_cells (\<lambda>c. c\<lparr>isPath := True\<rparr>) (path s) (maze s)) zz xx)
             \<longleftrightarrow> \<lparr>px = xx, pz = zz\<rparr> \<in> set (path s)"
proof -
  show "advanceVisualization s
           = (False, s\<lparr>maze := mark_cells (\<lambda>c. c\<lparr>isPath := True\<rparr>) (path s) (maze s)\<rparr>)"
    using assms(2) by (simp add: advanceVisualization_def)
  assume g: "in_grid (maze s) zz xx"
  show "isPath (cell_at (mark_cells (\<lambda>c. c\<lparr>isPath := True\<rparr>) (path s) (maze s)) zz xx)
             \<longleftrightarrow> \<lparr>px = xx, pz = zz\<rparr> \<in> set (path s)"
    using soundD[OF assms(1) g] g by (auto simp: cell_at_mark_cells)
qed

definition demo_actions :: "action list" where
  "demo_actions = [SetPath [\<lparr>px = 1, pz = 1\<rparr>], StoreVisitedCells [\<lparr>px = 1, pz = 1\<rparr>],
                   StartVisualization, AdvanceVisualization]"

definition stale_cursor_actions :: "action list" where
  "stale_cursor_actions = [StoreVisitedCells [\<lparr>px = 1, pz = 1\<rparr>], StartVisualization,
                           AdvanceVisualization, StoreVisitedCells []]"

definition cleared_overlay_actions :: "action list" where
  "cleared_overlay_actions = [SetPath [\<lparr>px = 1, pz = 1\<rparr>], StartVisualization]"

lemma in_grid_initial_store:
  "in_grid (maze initial_store) zz xx \<longleftrightarrow> 0 \<le> zz \<and> zz < 15 \<and> 0 \<le> xx \<and> xx < 15"
proof -
  have "PRESET_MAZES ! 0 \<in> set PRESET_MAZES" by (simp add: PRESET_MAZES_def)
  from preset_catalog[OF this] in_grid_well_formed[OF finish_preset_well_formed[of "PRESET_MAZES ! 0"], of zz xx]
  show ?thesis by (simp add: initial_store_def)
qed

lemmas action_defs =
  after_actions_def after_action_def setPath_def setVisitedCells_def storeVisitedCells_def
  startVisualization_def advanceVisualization_def Let_def

text \<open>
  Claim C3, as the store has it. From the initial state, after any sequence of actions that
  is \<open>cursor_safe\<close>, \<open>visualizationIndex \<le> visitedCells.length\<close>; \<open>advanceVisualization\<close>
  never decreases the cursor; no cell outside the stored path carries \<open>isPath\<close> after any
  sequence of actions, nor after \<open>startVisualization\<close> in any state; and in such a state the
  call of \<open>advanceVisualization\<close> that finds the cursor exhausted returns \<open>false\<close>, keeps the
  path and the cursor, and leaves \<open>isPath\<close> on exactly the cells of the grid that occur in
  the stored path.
\<close>

theorem visualization_cursor:
  "(cursor_safe as initial_store \<longrightarrow>
      visualizationIndex (after_actions as initial_store)
        \<le> length (visitedCells (after_actions as initial_store)))
   \<and> visualizationIndex s \<le> visualizationIndex (snd (advanceVisualization s))
   \<and> path_overlay_sound (after_actions as initial_store)
   \<and> path_overlay_sound (startVisualization s)
   \<and> (path_overlay_sound s \<and> length (visitedCells s) \<le> visualizationIndex s \<longrightarrow>
        \<not> fst (advanceVisualization s)
        \<and> path (snd (advanceVisualization s)) = path s
        \<and> visualizationIndex (snd (advanceVisualization s)) = visualizationIndex s
        \<and> (\<forall>zz xx. in_grid (maze s) zz xx \<longrightarrow>
              in_grid (maze (snd (advanceVisualization s))) zz xx
              \<and> (isPath (cell_at (maze (snd (advanceVisualization s))) zz xx)
                   \<longleftrightarrow> \<lparr>px = xx, pz = zz\<rparr> \<in> set (path s))))"
proof -
  have "cursor_bounded initial_store" by (simp add: cursor_bounded_def initial_store_def)
  then have a: "cursor_safe as initial_store \<Longrightarrow>
      visualizationIndex (after_actions as initial_store)
        \<le> length (visitedCells (after_actions as initial_store))"
    using after_actions_cursor[of initial_store as] by (simp add: cursor_bounded_def)
  have b: "visualizationIndex s \<le> visualizationIndex (snd (advanceVisualization s))"
    by (simp add: advanceVisualization_def Let_def)
  have c: "path_overlay_sound (after_actions as initial_store)"
    using initial_store_sound by (rule after_actions_sound)
  have d: "path_overlay_sound (startVisualization s)"
  proof (rule soundI)
    fix zz xx assume "in_grid (maze (startVisualization s)) zz xx"
      and i: "isPath (cell_at (maze (startVisualization s)) zz xx)"
    then have g: "in_grid (maze s) zz xx" by (simp add: startVisualization_def Let_def)
    from i show "\<lparr>px = xx, pz = zz\<rparr> \<in> set (path (startVisualization s))"
      by (simp add: startVisualization_def Let_def cell_at_map_map[OF g])
  qed
  have e: "\<not> fst (advanceVisualization s)
        \<and> path (snd (advanceVisualization s)) = path s
        \<and> visualizationIndex (snd (advanceVisualization s)) = visualizationIndex s
        \<and> (\<forall>zz xx. in_grid (maze s) zz xx \<longrightarrow>
              in_grid (maze (snd (advanceVisualization s))) zz xx
              \<and> (isPath (cell_at (maze (snd (advanceVisualization s))) zz xx)
                   \<longleftrightarrow> \<lparr>px = xx, pz = zz\<rparr> \<in> set (path s)))"
    if h: "path_overlay_sound s" "length (visitedCells s) \<le> visualizationIndex s"
    unfolding advanceVisualization_exhausted(1)[OF h]
    using advanceVisualization_exhausted(2)[OF h] by simp
  from a b c d e show ?thesis by blast
qed


theorem visualization_cursor_witness:
  "cursor_safe demo_actions initial_store
   \<and> visualizationIndex (after_actions demo_actions initial_store) = 1
   \<and> length (visitedCells (after_actions demo_actions initial_store)) = 1
   \<and> path_overlay_sound (after_actions demo_actions initial_store)
   \<and> in_grid (maze (after_actions demo_actions initial_store)) 1 1
   \<and> in_grid (maze (after_actions demo_actions initial_store)) 2 2
   \<and> \<not> fst (advanceVisualization (after_actions demo_actions initial_store))
   \<and> isPath (cell_at (maze (snd (advanceVisualization (after_actions demo_actions initial_store)))) 1 1)
   \<and> \<not> isPath (cell_at (maze (snd (advanceVisualization (after_actions demo_actions initial_store)))) 2 2)"
proof -
  let ?t = "after_actions demo_actions initial_store"
  have cs: "cursor_safe demo_actions initial_store"
    by (simp add: demo_actions_def action_defs initial_store_def)
  have i: "visualizationIndex ?t = 1" "visitedCells ?t = [\<lparr>px = 1, pz = 1\<rparr>]"
    "path ?t = [\<lparr>px = 1, pz = 1\<rparr>]"
    by (simp_all add: demo_actions_def action_defs initial_store_def)
  have g: "in_grid (maze ?t) 1 1" "in_grid (maze ?t) 2 2"
    by (simp_all add: demo_actions_def action_defs in_grid_initial_store)
  note v = visualization_cursor[of demo_actions ?t]
  from v have snd: "path_overlay_sound ?t" by blast
  with i have h: "path_overlay_sound ?t \<and> length (visitedCells ?t) \<le> visualizationIndex ?t" by simp
  from v h have "\<not> fst (advanceVisualization ?t)"
    and c: "\<And>zz xx. in_grid (maze ?t) zz xx \<Longrightarrow>
              (isPath (cell_at (maze (snd (advanceVisualization ?t))) zz xx)
                   \<longleftrightarrow> \<lparr>px = xx, pz = zz\<rparr> \<in> set (path ?t))"
    by blast+
  moreover from c[OF g(1)] c[OF g(2)] i
  have "isPath (cell_at (maze (snd (advanceVisualization ?t))) 1 1)"
    "\<not> isPath (cell_at (maze (snd (advanceVisualization ?t))) 2 2)" by simp_all
  ultimately show ?thesis using cs i g snd by simp
qed

text \<open>
  Two runs from the initial state. In the first the cursor has advanced to 1 when
  \<open>storeVisitedCells([])\<close> installs an empty list: the cursor is beyond the list. In the
  second the cursor equals the length of the (empty) list right after \<open>startVisualization\<close>,
  the stored path holds \<open>(1,1)\<close> and the overlay is empty: the overlay is only written by
  the next call of \<open>advanceVisualization\<close>.
\<close>

theorem visualization_cursor_counterexample:
  "visualizationIndex (after_actions stale_cursor_actions initial_store) = 1
   \<and> length (visitedCells (after_actions stale_cursor_actions initial_store)) = 0
   \<and> \<not> visualizationIndex (after_actions stale_cursor_actions initial_store)
          \<le> length (visitedCells (after_actions stale_cursor_actions initial_store))
   \<and> visualizationIndex (after_actions cleared_overlay_actions initial_store)
       = length (visitedCells (after_actions cleared_overlay_actions initial_store))
   \<and> in_grid (maze (after_actions cleared_overlay_actions initial_store)) 1 1
   \<and> \<lparr>px = 1, pz = 1\<rparr> \<in> set (path (after_actions cleared_overlay_actions initial_store))
   \<and> \<not> isPath (cell_at (maze (after_actions cleared_overlay_actions initial_store)) 1 1)"
proof -
  have a: "visualizationIndex (after_actions stale_cursor_actions initial_store) = 1"
    "visitedCells (after_actions stale_cursor_actions initial_store) = []"
    by (simp_all add: stale_cursor_actions_def action_defs initial_store_def)
  have b: "visualizationIndex (after_actions cleared_overlay_actions initial_store) = 0"
    "visitedCells (after_actions cleared_overlay_actions initial_store) = []"
    "path (after_actions cleared_overlay_actions initial_store) = [\<lparr>px = 1, pz = 1\<rparr>]"
    by (simp_all add: cleared_overlay_actions_def action_defs initial_store_def)
  have g: "in_grid (maze (after_actions cleared_overlay_actions initial_store)) 1 1"
    by (simp add: cleared_overlay_actions_def action_defs in_grid_initial_store)
  have g0: "in_grid (maze (setPath [\<lparr>px = 1, pz = 1\<rparr>] initial_store)) 1 1"
    by (simp add: setPath_def Let_def in_grid_initial_store)
  have c: "\<not> isPath (cell_at (maze (after_actions cleared_overlay_actions initial_store)) 1 1)"
    using cell_at_map_map[OF g0, of "\<lambda>cell. cell\<lparr>isVisited := False, isPath := False\<rparr>"]
    by (simp add: cleared_overlay_actions_def after_actions_def after_action_def
        startVisualization_def Let_def)
  from a b g c show ?thesis by simp
qed

section \<open>The timers of \<open>GameOverlay\<close>\<close>

text \<open>
  The component keeps three refs and schedules three kinds of callback: the timeout set
  after a solve in step mode (\<open>startVisualization()\<close>), the settle timeout before the moving
  phase (\<open>startMoving()\<close>), and the visualization interval. A world is the store, the refs,
  the timers that are pending, each with the handle that \<open>setTimeout\<close> or \<open>setInterval\<close>
  returned for it, and the values of \<open>phase\<close> and \<open>selectedAlgorithm\<close> that the effects last
  ran with (none before the component is mounted). \<open>runAlgorithm\<close> is imported from a module
  that is not among the sources: the solver is a parameter, a function that returns a path,
  the visited cells and the statistics.
\<close>

datatype callback = CallStartVisualization | CallStartMoving | VisualizationTick

record OverlayRefs =
  hasSolvedRef :: bool
  timeoutRef :: "nat option"
  visualizationIntervalRef :: "nat option"

record World =
  store :: MazeState
  refs :: OverlayRefs
  timers :: "(nat \<times> callback) list"
  nextHandle :: nat
  rendered :: "(GamePhase \<times> Algorithm option) option"

record SolveResult =
  res_path :: "Position list"
  res_visited :: "Position list"
  res_stats :: AlgorithmStats

type_synonym solver = "Algorithm \<Rightarrow> maze \<Rightarrow> Position \<Rightarrow> Position \<Rightarrow> SolveResult"

text \<open>
  \<open>setTimeout\<close> and \<open>setInterval\<close> return a fresh handle; \<open>clearTimeout\<close> and \<open>clearInterval\<close>
  remove the timer with the given handle from the pending ones.
\<close>

definition setTimer :: "callback \<Rightarrow> World \<Rightarrow> nat \<times> World" where
  "setTimer cb w =
     (nextHandle w, w\<lparr>timers := timers w @ [(nextHandle w, cb)], nextHandle := nextHandle w + 1\<rparr>)"

definition clearTimer :: "nat \<Rightarrow> World \<Rightarrow> World" where
  "clearTimer h w = w\<lparr>timers := filter (\<lambda>t. fst t \<noteq> h) (timers w)\<rparr>"

text \<open>
  The bodies of the three callbacks, as written in the component: none of them reads the
  phase. The interval's callback stops the interval and schedules the settle timeout when
  \<open>advanceVisualization()\<close> reports that nothing is left.
\<close>

definition run_callback :: "callback \<Rightarrow> World \<Rightarrow> World" where
  "run_callback cb w =
     (case cb of
        CallStartVisualization \<Rightarrow> w\<lparr>store := startVisualization (store w)\<rparr>
      | CallStartMoving \<Rightarrow> w\<lparr>store := startMoving (store w)\<rparr>
      | VisualizationTick \<Rightarrow>
          (let (hasMore, st) = advanceVisualization (store w);
               w1 = w\<lparr>store := st\<rparr>
           in if \<not> hasMore
              then (let w2 = (case visualizationIntervalRef (refs w1) of
                                Some h \<Rightarrow> (clearTimer h w1)
                                            \<lparr>refs := (refs w1)\<lparr>visualizationIntervalRef := None\<rparr>\<rparr>
                              | None \<Rightarrow> w1);
                        (h, w3) = setTimer CallStartMoving w2
                    in w3\<lparr>refs := (refs w3)\<lparr>timeoutRef := Some h\<rparr>\<rparr>)
              else w1))"

text \<open>
  The timer with handle \<open>h\<close> fires: nothing happens unless it is pending; a timeout is
  consumed by firing, an interval stays.
\<close>

definition fire :: "nat \<Rightarrow> World \<Rightarrow> World" where
  "fire h w =
     (case map_of (timers w) h of
        None \<Rightarrow> w
      | Some cb \<Rightarrow> (case cb of
                     VisualizationTick \<Rightarrow> run_callback cb w
                   | _ \<Rightarrow> run_callback cb (clearTimer h w)))"

text \<open>
  The first effect of the component (dependency \<open>phase\<close>):
  \<open>if (phase === "menu") { hasSolvedRef.current = false; ... clearTimeout ... clearInterval }\<close>.
\<close>

definition menu_effect :: "World \<Rightarrow> World" where
  "menu_effect w =
     (if phase (store w) = Menu
      then (let w1 = w\<lparr>refs := (refs w)\<lparr>hasSolvedRef := False\<rparr>\<rparr>;
                w2 = (case timeoutRef (refs w1) of
                        Some h \<Rightarrow> (clearTimer h w1)\<lparr>refs := (refs w1)\<lparr>timeoutRef := None\<rparr>\<rparr>
                      | None \<Rightarrow> w1);
                w3 = (case visualizationIntervalRef (refs w2) of
                        Some h \<Rightarrow> (clearTimer h w2)\<lparr>refs := (refs w2)\<lparr>visualizationIntervalRef := None\<rparr>\<rparr>
                      | None \<Rightarrow> w2)
            in w3)
      else w)"

text \<open>
  The second effect (dependencies \<open>phase\<close> and \<open>selectedAlgorithm\<close>): the solve, once per
  session, and the timeout that leads on. In step mode the path is written with
  \<open>useMaze.setState({ path: result.path })\<close>.
\<close>

definition solve_effect :: "solver \<Rightarrow> World \<Rightarrow> World" where
  "solve_effect runAlgorithm w =
     (case selectedAlgorithm (store w) of
        None \<Rightarrow> w
      | Some algo \<Rightarrow>
          if phase (store w) = Solving \<and> \<not> hasSolvedRef (refs w)
          then (let w1 = w\<lparr>refs := (refs w)\<lparr>hasSolvedRef := True\<rparr>\<rparr>;
                    result = runAlgorithm algo (maze (store w)) (startPos (store w)) (endPos (store w));
                    w2 = w1\<lparr>store := setStats (res_stats result) (store w1)\<rparr>
                in if visualizationMode (store w) = Step
                   then (let w3 = w2\<lparr>store := (storeVisitedCells (res_visited result) (store w2))
                                                \<lparr>path := res_path result\<rparr>\<rparr>;
                             (h, w4) = setTimer CallStartVisualization w3
                         in w4\<lparr>refs := (refs w4)\<lparr>timeoutRef := Some h\<rparr>\<rparr>)
                   else (let w3 = w2\<lparr>store := setPath (res_path result)
                                                (setVisitedCells (res_visited result) (store w2))\<rparr>;
                             (h, w4) = setTimer CallStartMoving w3
                         in w4\<lparr>refs := (refs w4)\<lparr>timeoutRef := Some h\<rparr>\<rparr>))
          else w)"

text \<open>
  The third effect (dependency \<open>phase\<close>) starts the interval in the visualizing phase and
  returns the cleanup that clears it; the cleanup does not reset the ref.
\<close>

definition visualizing_effect :: "World \<Rightarrow> World" where
  "visualizing_effect w =
     (if phase (store w) = Visualizing
      then (let (h, w1) = setTimer VisualizationTick w
            in w1\<lparr>refs := (refs w1)\<lparr>visualizationIntervalRef := Some h\<rparr>\<rparr>)
      else w)"

definition visualizing_cleanup :: "World \<Rightarrow> World" where
  "visualizing_cleanup w =
     (case visualizationIntervalRef (refs w) of
        Some h \<Rightarrow> clearTimer h w
      | None \<Rightarrow> w)"

text \<open>
  A commit: after the store has changed, the component is rendered again and the effects
  whose dependencies changed run, first the cleanup that the third effect returned (it
  returned one only when it ran in the visualizing phase), then the effects in the order of
  the source. At mount every effect runs. The effects read the values the component was
  rendered with, which are those of the store at that moment. The second effect writes to
  the store but neither to \<open>phase\<close> nor \<open>selectedAlgorithm\<close>, so the render it causes runs no
  effect.
\<close>

definition commit :: "solver \<Rightarrow> World \<Rightarrow> World" where
  "commit runAlgorithm w =
     (let ph = phase (store w);
          algo = selectedAlgorithm (store w);
          phase_changed = (case rendered w of None \<Rightarrow> True | Some (ph0, a0) \<Rightarrow> ph0 \<noteq> ph);
          algo_changed = (case rendered w of None \<Rightarrow> True | Some (ph0, a0) \<Rightarrow> a0 \<noteq> algo);
          has_cleanup = (case rendered w of None \<Rightarrow> False | Some (ph0, a0) \<Rightarrow> ph0 = Visualizing);
          w1 = (if phase_changed \<and> has_cleanup then visualizing_cleanup w else w);
          w2 = (if phase_changed then menu_effect w1 else w1);
          w3 = (if phase_changed \<or> algo_changed then solve_effect runAlgorithm w2 else w2);
          w4 = (if phase_changed then visualizing_effect w3 else w3)
      in w4\<lparr>rendered := Some (ph, algo)\<rparr>)"

text \<open>
  What happens to a world: somebody calls a store action, or a timer fires. Each is followed
  by the commit of the render it causes, before the next timer can fire; this order is the
  scheduling of the rendering library and is taken for granted here.
\<close>

datatype event = StoreAction action | TimerFires nat

definition step :: "solver \<Rightarrow> event \<Rightarrow> World \<Rightarrow> World" where
  "step runAlgorithm ev w =
     commit runAlgorithm
       (case ev of
          StoreAction a \<Rightarrow> w\<lparr>store := after_action a (store w)\<rparr>
        | TimerFires h \<Rightarrow> fire h w)"

definition mount :: "solver \<Rightarrow> World" where
  "mount runAlgorithm =
     commit runAlgorithm
       \<lparr>store = initial_store,
        refs = \<lparr>hasSolvedRef = False, timeoutRef = None, visualizationIntervalRef = None\<rparr>,
        timers = [], nextHandle = 0, rendered = None\<rparr>"

definition run_events :: "solver \<Rightarrow> event list \<Rightarrow> World \<Rightarrow> World" where
  "run_events runAlgorithm evs w = fold (step runAlgorithm) evs w"

text \<open>
  Modelled from the spec: the callers of the store outside this component are not among the
  sources. The spec gives the interface the operations \<open>setAlgorithm\<close>, \<open>setDifficulty\<close>,
  \<open>setVisualizationMode\<close>, \<open>startGame\<close>, \<open>restart\<close>, \<open>generateMaze\<close> and \<open>loadPresetMaze\<close>
  (section 6) and has the render loop call \<open>moveBall\<close> and \<open>complete\<close> (section 4.5);
  \<open>startVisualization\<close> is called by the component's own timeout only. Here any store action
  other than \<open>startVisualization\<close> may come from outside.
\<close>

fun from_outside :: "event \<Rightarrow> bool" where
  "from_outside (StoreAction a) = (a \<noteq> StartVisualization)"
| "from_outside (TimerFires h) = True"

text \<open>
  The invariant of the component: at most one timer is pending, and its handle is held in
  the ref that belongs to it; a pending interval means the visualizing phase; nothing is
  pending in the menu phase; and the effects have run for the current phase and algorithm.
\<close>

definition tracked :: "World \<Rightarrow> bool" where
  "tracked w \<longleftrightarrow>
     timers w = []
     \<or> (hasSolvedRef (refs w)
        \<and> (\<exists>h. (timers w = [(h, VisualizationTick)] \<and> visualizationIntervalRef (refs w) = Some h)
              \<or> (timers w = [(h, CallStartVisualization)] \<and> timeoutRef (refs w) = Some h)
              \<or> (timers w = [(h, CallStartMoving)] \<and> timeoutRef (refs w) = Some h)))"

definition timers_owned :: "World \<Rightarrow> bool" where
  "timers_owned w \<longleftrightarrow>
     rendered w = Some (phase (store w), selectedAlgorithm (store w))
     \<and> tracked w
     \<and> (\<forall>h. timers w = [(h, VisualizationTick)] \<longrightarrow> phase (store w) = Visualizing)
     \<and> (phase (store w) = Menu \<longrightarrow> timers w = [])"


lemma tracked_cases:
  assumes "tracked w"
  obtains (none) "timers w = []"
  | (tick) h where "timers w = [(h, VisualizationTick)]" "visualizationIntervalRef (refs w) = Some h"
      "hasSolvedRef (refs w)"
  | (timeout) h cb where "timers w = [(h, cb)]" "cb \<noteq> VisualizationTick" "timeoutRef (refs w) = Some h"
      "hasSolvedRef (refs w)"
  using assms unfolding tracked_def by fastforce

lemma tracked_empty: "timers w = [] \<Longrightarrow> tracked w"
  by (simp add: tracked_def)

lemma cleanup_fields:
  "store (visualizing_cleanup w) = store w" "refs (visualizing_cleanup w) = refs w"
  "rendered (visualizing_cleanup w) = rendered w"
  by (simp_all add: visualizing_cleanup_def clearTimer_def split: option.splits)

lemma cleanup_tracked:
  assumes "tracked w"
  shows "tracked (visualizing_cleanup w)"
    and "timers (visualizing_cleanup w) \<noteq> [(h, VisualizationTick)]"
    and "timers w = [] \<Longrightarrow> timers (visualizing_cleanup w) = []"
proof -
  show "timers w = [] \<Longrightarrow> timers (visualizing_cleanup w) = []"
    by (simp add: visualizing_cleanup_def clearTimer_def split: option.splits)
  from assms show "tracked (visualizing_cleanup w)"
  proof (cases rule: tracked_cases)
    case none
    then show ?thesis
      by (simp add: tracked_def visualizing_cleanup_def clearTimer_def split: option.splits)
  next
    case (tick h)
    then show ?thesis
      by (simp add: tracked_def visualizing_cleanup_def clearTimer_def)
  next
    case (timeout h cb)
    then show ?thesis
      by (cases cb) (auto simp: tracked_def visualizing_cleanup_def clearTimer_def split: option.splits)
  qed
  from assms show "timers (visualizing_cleanup w) \<noteq> [(h, VisualizationTick)]"
  proof (cases rule: tracked_cases)
    case none
    then show ?thesis
      by (simp add: visualizing_cleanup_def clearTimer_def split: option.splits)
  next
    case (tick h)
    then show ?thesis
      by (simp add: visualizing_cleanup_def clearTimer_def)
  next
    case (timeout h cb)
    then show ?thesis
      by (auto simp: visualizing_cleanup_def clearTimer_def split: option.splits)
  qed
qed

lemma menu_effect_other: "phase (store w) \<noteq> Menu \<Longrightarrow> menu_effect w = w"
  by (simp add: menu_effect_def)

lemma menu_effect_fields:
  "store (menu_effect w) = store w" "rendered (menu_effect w) = rendered w"
  by (simp_all add: menu_effect_def Let_def clearTimer_def split: option.splits)

lemma menu_effect_clears:
  assumes "tracked w" "phase (store w) = Menu"
  shows "timers (menu_effect w) = []"
  using assms(1)
proof (cases rule: tracked_cases)
  case none
  with assms(2) show ?thesis
    by (simp add: menu_effect_def Let_def clearTimer_def split: option.splits)
next
  case (tick h)
  with assms(2) show ?thesis
    by (simp add: menu_effect_def Let_def clearTimer_def split: option.splits)
next
  case (timeout h cb)
  with assms(2) show ?thesis
    by (simp add: menu_effect_def Let_def clearTimer_def split: option.splits)
qed

lemma solve_effect_other: "phase (store w) \<noteq> Solving \<Longrightarrow> solve_effect r w = w"
  by (simp add: solve_effect_def split: option.splits)

lemma solve_effect_fields:
  "phase (store (solve_effect r w)) = phase (store w)"
  "selectedAlgorithm (store (solve_effect r w)) = selectedAlgorithm (store w)"
  "rendered (solve_effect r w) = rendered w"
  by (simp_all add: solve_effect_def Let_def setTimer_def setStats_def storeVisitedCells_def
      setPath_def setVisitedCells_def split: option.splits)

lemma solve_effect_tracked:
  assumes "tracked w"
  shows "tracked (solve_effect r w)"
    and "timers w \<noteq> [(h, VisualizationTick)] \<Longrightarrow> timers (solve_effect r w) \<noteq> [(h, VisualizationTick)]"
proof -
  have e: "solve_effect r w = w" if "hasSolvedRef (refs w)"
    using that by (simp add: solve_effect_def split: option.splits)
  have n: "timers w = []" if "\<not> hasSolvedRef (refs w)"
    using assms that by (auto simp: tracked_def)
  show "tracked (solve_effect r w)"
  proof (cases "hasSolvedRef (refs w)")
    case True
    with e assms show ?thesis by simp
  next
    case False
    with n show ?thesis
      by (simp add: solve_effect_def Let_def setTimer_def tracked_def split: option.splits)
  qed
  show "timers (solve_effect r w) \<noteq> [(h, VisualizationTick)]" if "timers w \<noteq> [(h, VisualizationTick)]"
  proof (cases "hasSolvedRef (refs w)")
    case True
    with e that show ?thesis by simp
  next
    case False
    with n show ?thesis
      by (simp add: solve_effect_def Let_def setTimer_def split: option.splits)
  qed
qed

lemma visualizing_effect_other: "phase (store w) \<noteq> Visualizing \<Longrightarrow> visualizing_effect w = w"
  by (simp add: visualizing_effect_def)

lemma visualizing_effect_fields:
  "store (visualizing_effect w) = store w" "rendered (visualizing_effect w) = rendered w"
  by (simp_all add: visualizing_effect_def Let_def setTimer_def)

lemma visualizing_effect_tracked:
  "timers w = [] \<Longrightarrow> hasSolvedRef (refs w) \<Longrightarrow> tracked (visualizing_effect w)"
  by (simp add: visualizing_effect_def Let_def setTimer_def tracked_def)


lemma commit_unchanged:
  assumes "rendered w = Some (phase (store w), selectedAlgorithm (store w))"
  shows "commit r w = w"
  using assms by (simp add: commit_def Let_def)

lemma commit_owned:
  assumes r0: "rendered w = Some (ph0, a0)"
    and t: "tracked w"
    and c2: "\<And>h. timers w = [(h, VisualizationTick)] \<Longrightarrow> ph0 = Visualizing"
    and c3: "phase (store w) = Visualizing \<Longrightarrow> ph0 \<noteq> Visualizing \<Longrightarrow>
               timers w = [] \<and> hasSolvedRef (refs w)"
    and c4: "phase (store w) = Menu \<Longrightarrow> ph0 = Menu \<Longrightarrow> timers w = []"
  shows "timers_owned (commit r w)"
proof (cases "ph0 = phase (store w)")
  case True
  let ?w3 = "if a0 \<noteq> selectedAlgorithm (store w) then solve_effect r w else w"
  have e: "commit r w = ?w3\<lparr>rendered := Some (phase (store w), selectedAlgorithm (store w))\<rparr>"
    using r0 True by (simp add: commit_def Let_def)
  have f: "phase (store ?w3) = phase (store w)" "selectedAlgorithm (store ?w3) = selectedAlgorithm (store w)"
    by (simp_all add: solve_effect_fields)
  have t3: "tracked ?w3" using t by (simp add: solve_effect_tracked)
  have k: "timers ?w3 = [(h, VisualizationTick)] \<Longrightarrow> phase (store w) = Visualizing" for h
    using c2[of h] solve_effect_tracked(2)[OF t, of h r] True by (auto split: if_splits)
  have m: "phase (store w) = Menu \<Longrightarrow> timers ?w3 = []"
    using c4 True by (simp add: solve_effect_other)
  show ?thesis
    unfolding e timers_owned_def using f t3 k m by (simp add: tracked_def)
next
  case changed: False
  let ?ph = "phase (store w)"
  let ?w1 = "if ph0 = Visualizing then visualizing_cleanup w else w"
  let ?w2 = "menu_effect ?w1"
  let ?w3 = "solve_effect r ?w2"
  let ?w4 = "visualizing_effect ?w3"
  have e: "commit r w = ?w4\<lparr>rendered := Some (?ph, selectedAlgorithm (store w))\<rparr>"
    using r0 changed by (simp add: commit_def Let_def)
  have s1: "store ?w1 = store w" by (simp add: cleanup_fields)
  have t1: "tracked ?w1" using t by (simp add: cleanup_tracked)
  have n1: "timers ?w1 \<noteq> [(h, VisualizationTick)]" for h
    using c2[of h] cleanup_tracked(2)[OF t, of h] by auto
  have z1: "timers w = [] \<Longrightarrow> timers ?w1 = []"
    using cleanup_tracked(3)[OF t] by simp
  have r1: "refs ?w1 = refs w" by (simp add: cleanup_fields)
  show ?thesis
  proof (cases ?ph)
    case Menu
    then have "timers ?w2 = []" using t1 s1 by (intro menu_effect_clears) simp_all
    moreover have "phase (store ?w2) = Menu" using Menu s1 by (simp add: menu_effect_fields)
    ultimately have "?w4 = ?w2"
      by (simp add: solve_effect_other visualizing_effect_other)
    with \<open>timers ?w2 = []\<close> Menu s1 show ?thesis
      unfolding e timers_owned_def by (simp add: menu_effect_fields tracked_def)
  next
    case Solving
    then have w2: "?w2 = ?w1" using s1 by (simp add: menu_effect_other)
    have "phase (store ?w3) = Solving" using Solving s1 w2 by (simp add: solve_effect_fields)
    then have w4: "?w4 = ?w3" by (simp add: visualizing_effect_other)
    have t3: "tracked ?w3" unfolding w2 using t1 by (rule solve_effect_tracked)
    have n3: "timers ?w3 \<noteq> [(h, VisualizationTick)]" for h
      unfolding w2 using t1 n1 by (rule solve_effect_tracked)
    have f: "phase (store ?w3) = ?ph" "selectedAlgorithm (store ?w3) = selectedAlgorithm (store w)"
      unfolding w2 using s1 by (simp_all add: solve_effect_fields)
    show ?thesis
      unfolding e w4 timers_owned_def using f t3 n3 Solving by (simp add: tracked_def)
  next
    case Visualizing
    with c3 changed have z: "timers w = []" and hs: "hasSolvedRef (refs w)" by auto
    from Visualizing have w2: "?w2 = ?w1" using s1 by (simp add: menu_effect_other)
    from Visualizing have w3: "?w3 = ?w1" unfolding w2 using s1 by (simp add: solve_effect_other)
    have "tracked (visualizing_effect ?w1)"
      using z1[OF z] hs r1 by (intro visualizing_effect_tracked) simp_all
    then show ?thesis
      unfolding e w3 timers_owned_def using Visualizing s1
      by (simp add: visualizing_effect_fields tracked_def)
  next
    case Moving
    then have "?w4 = ?w1"
      using s1 by (simp add: menu_effect_other solve_effect_other visualizing_effect_other)
    then show ?thesis
      unfolding e timers_owned_def using Moving s1 t1 n1 by (simp add: tracked_def)
  next
    case Completed
    then have "?w4 = ?w1"
      using s1 by (simp add: menu_effect_other solve_effect_other visualizing_effect_other)
    then show ?thesis
      unfolding e timers_owned_def using Completed s1 t1 n1 by (simp add: tracked_def)
  qed
qed


lemma outside_not_visualizing:
  "a \<noteq> StartVisualization \<Longrightarrow> phase (after_action a s) = Visualizing \<Longrightarrow> phase s = Visualizing"
proof -
  assume a: "a \<noteq> StartVisualization" and v: "phase (after_action a s) = Visualizing"
  have r: "run_action a s = Inr t \<Longrightarrow> phase t = Visualizing \<Longrightarrow> phase s = Visualizing" for t
    using a
    by (cases a)
       (auto simp: setAlgorithm_def setVisualizationMode_def setDifficulty_def
          startGame_def setPath_def setVisitedCells_def storeVisitedCells_def setStats_def
          advanceVisualization_def startMoving_def moveBall_def complete_def
          restart_def generateMaze_def loadPresetMaze_def bindE_Inr_iff Let_def
          split: if_splits)
  from after_action_cases[of a s] r[of "after_action a s"] v show ?thesis by auto
qed

lemma step_action_owned:
  assumes "timers_owned w" "a \<noteq> StartVisualization"
  shows "timers_owned (step r (StoreAction a) w)"
proof -
  let ?w = "w\<lparr>store := after_action a (store w)\<rparr>"
  from assms(1) have r0: "rendered ?w = Some (phase (store w), selectedAlgorithm (store w))"
    and t: "tracked ?w"
    and k: "\<And>h. timers w = [(h, VisualizationTick)] \<Longrightarrow> phase (store w) = Visualizing"
    and m: "phase (store w) = Menu \<Longrightarrow> timers w = []"
    by (simp_all add: timers_owned_def tracked_def)
  have "timers_owned (commit r ?w)"
  proof (rule commit_owned[OF r0 t])
    fix h assume "timers ?w = [(h, VisualizationTick)]"
    then show "phase (store w) = Visualizing" using k by simp
  next
    assume "phase (store ?w) = Visualizing" "phase (store w) \<noteq> Visualizing"
    with outside_not_visualizing[OF assms(2), of "store w"]
    show "timers ?w = [] \<and> hasSolvedRef (refs ?w)" by simp
  next
    assume "phase (store ?w) = Menu" "phase (store w) = Menu"
    with m show "timers ?w = []" by simp
  qed
  then show ?thesis by (simp add: step_def)
qed

lemma tick_store:
  "phase (snd (advanceVisualization s)) = phase s"
  "selectedAlgorithm (snd (advanceVisualization s)) = selectedAlgorithm s"
  by (simp_all add: advanceVisualization_def Let_def)

lemma step_fire_owned:
  assumes "timers_owned w"
  shows "timers_owned (step r (TimerFires h) w)"
proof -
  from assms have r0: "rendered w = Some (phase (store w), selectedAlgorithm (store w))"
    and t: "tracked w"
    and k: "\<And>h. timers w = [(h, VisualizationTick)] \<Longrightarrow> phase (store w) = Visualizing"
    and m: "phase (store w) = Menu \<Longrightarrow> timers w = []"
    by (simp_all add: timers_owned_def)
  have "timers_owned (commit r (fire h w))"
  proof (cases "map_of (timers w) h")
    case None
    then have "fire h w = w" by (simp add: fire_def)
    with commit_unchanged[OF r0] assms show ?thesis by simp
  next
    case (Some cb)
    from t show ?thesis
    proof (cases rule: tracked_cases)
      case none
      with Some show ?thesis by simp
    next
      case (tick h')
      with Some have hh: "h' = h" and cb: "cb = VisualizationTick" by (auto split: if_splits)
      from k tick have v: "phase (store w) = Visualizing" by simp
      obtain more st where adv: "advanceVisualization (store w) = (more, st)"
        by (cases "advanceVisualization (store w)")
      with tick_store[of "store w"] have st: "phase st = phase (store w)"
        "selectedAlgorithm st = selectedAlgorithm (store w)" by simp_all
      show ?thesis
      proof (cases more)
        case True
        with adv tick hh have f: "fire h w = w\<lparr>store := st\<rparr>"
          by (simp add: fire_def run_callback_def Let_def)
        have "commit r (fire h w) = fire h w"
          unfolding f using r0 st by (intro commit_unchanged) simp
        then show ?thesis
          unfolding f using assms st by (simp add: timers_owned_def tracked_def)
      next
        case False
        with adv tick hh have f: "fire h w =
            w\<lparr>store := st, timers := [(nextHandle w, CallStartMoving)],
              refs := (refs w)\<lparr>visualizationIntervalRef := None, timeoutRef := Some (nextHandle w)\<rparr>,
              nextHandle := nextHandle w + 1\<rparr>"
          by (simp add: fire_def run_callback_def Let_def clearTimer_def setTimer_def)
        have "commit r (fire h w) = fire h w"
          unfolding f using r0 st by (intro commit_unchanged) simp
        then show ?thesis
          unfolding f using r0 st tick v by (simp add: timers_owned_def tracked_def)
      qed
    next
      case (timeout h' cb')
      with Some have hh: "h' = h" and cb: "cb' = cb" by (auto split: if_splits)
      from timeout cb have nt: "cb \<noteq> VisualizationTick" by simp
      show ?thesis
      proof (cases cb)
        case CallStartVisualization
        with timeout hh cb have f: "fire h w = w\<lparr>timers := [], store := startVisualization (store w)\<rparr>"
          by (simp add: fire_def run_callback_def clearTimer_def)
        show ?thesis
          unfolding f
        proof (rule commit_owned[where ?ph0.0 = "phase (store w)" and ?a0.0 = "selectedAlgorithm (store w)"])
          show "rendered (w\<lparr>timers := [], store := startVisualization (store w)\<rparr>)
                  = Some (phase (store w), selectedAlgorithm (store w))"
            using r0 by simp
          show "tracked (w\<lparr>timers := [], store := startVisualization (store w)\<rparr>)"
            by (simp add: tracked_def)
        qed (use timeout in simp_all)
      next
        case CallStartMoving
        with timeout hh cb have f: "fire h w = w\<lparr>timers := [], store := startMoving (store w)\<rparr>"
          by (simp add: fire_def run_callback_def clearTimer_def)
        show ?thesis
          unfolding f
        proof (rule commit_owned[where ?ph0.0 = "phase (store w)" and ?a0.0 = "selectedAlgorithm (store w)"])
          show "rendered (w\<lparr>timers := [], store := startMoving (store w)\<rparr>)
                  = Some (phase (store w), selectedAlgorithm (store w))"
            using r0 by simp
          show "tracked (w\<lparr>timers := [], store := startMoving (store w)\<rparr>)"
            by (simp add: tracked_def)
        qed (use timeout in \<open>simp_all add: startMoving_def\<close>)
      next
        case VisualizationTick
        with nt show ?thesis by simp
      qed
    qed
  qed
  then show ?thesis by (simp add: step_def)
qed

lemma mount_owned: "timers_owned (mount r)"
proof -
  have "mount r =
       \<lparr>store = initial_store,
        refs = \<lparr>hasSolvedRef = False, timeoutRef = None, visualizationIntervalRef = None\<rparr>,
        timers = [], nextHandle = 0, rendered = Some (Menu, None)\<rparr>"
    by (simp add: mount_def commit_def Let_def menu_effect_def solve_effect_def
        visualizing_effect_def initial_store_def)
  then show ?thesis by (simp add: timers_owned_def tracked_def initial_store_def)
qed

lemma step_owned: "timers_owned w \<Longrightarrow> from_outside ev \<Longrightarrow> timers_owned (step r ev w)"
  by (cases ev) (simp_all add: step_action_owned step_fire_owned)

lemma run_events_owned:
  "timers_owned w \<Longrightarrow> list_all from_outside evs \<Longrightarrow> timers_owned (run_events r evs w)"
  unfolding run_events_def
  by (induction evs arbitrary: w) (simp_all add: step_owned)

lemma restart_menu: "phase (after_action (Restart rnd) s) = Menu"
proof -
  from generateRandomMaze_well_formed[of "fst (DIFFICULTY_SIZES (difficulty s))"
      "snd (DIFFICULTY_SIZES (difficulty s))" rnd] DIFFICULTY_SIZES_bounds[of "difficulty s"]
  obtain g where "generateRandomMaze rnd (fst (DIFFICULTY_SIZES (difficulty s)))
      (snd (DIFFICULTY_SIZES (difficulty s))) = Inr g" by auto
  then show ?thesis by (simp add: after_action_def restart_def Let_def bindE_Inr)
qed


lemma commit_phase: "phase (store (commit r w)) = phase (store w)"
  by (simp add: commit_def Let_def cleanup_fields menu_effect_fields solve_effect_fields
      visualizing_effect_fields)

definition demo_solver :: solver where
  "demo_solver algo m s e =
     \<lparr>res_path = [s, e], res_visited = [s],
      res_stats = \<lparr>solveTimeMs = 0, nodesExplored = 1, pathLength = 2\<rparr>\<rparr>"

definition demo_events :: "event list" where
  "demo_events = [StoreAction (SetAlgorithm Bfs), StoreAction StartGame]"

text \<open>
  Claim C5, as the component has it. The callbacks carry no phase guard: in any state, also
  in the menu phase, the settle timeout's callback moves the session to \<open>moving\<close>, the other
  timeout's callback moves it to \<open>visualizing\<close>, and the tick runs \<open>advanceVisualization()\<close>.
  What protects a session that is back in the menu is cancellation. In every world reached
  from the mounted component by store actions from outside and by firings of timers, every
  pending timer is held in \<open>timeoutRef\<close> or \<open>visualizationIntervalRef\<close>; so after \<open>restart()\<close>
  and the commit that follows it the session is in the menu phase, no timer is pending, and
  the firing of any handle changes nothing.
\<close>

theorem dangling_timers_cancelled:
  "phase (store (run_callback CallStartMoving w)) = Moving
   \<and> phase (store (run_callback CallStartVisualization w)) = Visualizing
   \<and> store (run_callback VisualizationTick w) = snd (advanceVisualization (store w))
   \<and> (list_all from_outside evs \<longrightarrow>
        timers_owned (run_events r evs (mount r))
        \<and> phase (store (step r (StoreAction (Restart rnd)) (run_events r evs (mount r)))) = Menu
        \<and> timers (step r (StoreAction (Restart rnd)) (run_events r evs (mount r))) = []
        \<and> fire h (step r (StoreAction (Restart rnd)) (run_events r evs (mount r)))
            = step r (StoreAction (Restart rnd)) (run_events r evs (mount r))
        \<and> step r (TimerFires h) (step r (StoreAction (Restart rnd)) (run_events r evs (mount r)))
            = step r (StoreAction (Restart rnd)) (run_events r evs (mount r)))"
proof -
  have a: "phase (store (run_callback CallStartMoving w)) = Moving"
    "phase (store (run_callback CallStartVisualization w)) = Visualizing"
    by (simp_all add: run_callback_def startMoving_def startVisualization_def Let_def)
  have b: "store (run_callback VisualizationTick w) = snd (advanceVisualization (store w))"
    by (cases "advanceVisualization (store w)")
       (simp add: run_callback_def Let_def setTimer_def clearTimer_def split: option.splits)
  have c: "timers_owned (run_events r evs (mount r))
        \<and> phase (store (step r (StoreAction (Restart rnd)) (run_events r evs (mount r)))) = Menu
        \<and> timers (step r (StoreAction (Restart rnd)) (run_events r evs (mount r))) = []
        \<and> fire h (step r (StoreAction (Restart rnd)) (run_events r evs (mount r)))
            = step r (StoreAction (Restart rnd)) (run_events r evs (mount r))
        \<and> step r (TimerFires h) (step r (StoreAction (Restart rnd)) (run_events r evs (mount r)))
            = step r (StoreAction (Restart rnd)) (run_events r evs (mount r))"
    if ok: "list_all from_outside evs"
  proof -
    let ?w = "run_events r evs (mount r)"
    let ?w1 = "step r (StoreAction (Restart rnd)) ?w"
    have o: "timers_owned ?w" using mount_owned ok by (rule run_events_owned)
    then have o1: "timers_owned ?w1" by (rule step_action_owned) simp
    have p: "phase (store ?w1) = Menu"
      by (simp add: step_def commit_phase restart_menu)
    with o1 have t: "timers ?w1 = []" by (simp add: timers_owned_def)
    then have f: "fire h ?w1 = ?w1" by (simp add: fire_def)
    from o1 have "commit r ?w1 = ?w1" by (intro commit_unchanged) (simp add: timers_owned_def)
    with f have "step r (TimerFires h) ?w1 = ?w1" by (simp add: step_def)
    with o p t f show ?thesis by simp
  qed
  from a b c show ?thesis by blast
qed



lemma solve_effect_instant:
  assumes "selectedAlgorithm (store w) = Some algo" "phase (store w) = Solving"
    "\<not> hasSolvedRef (refs w)" "visualizationMode (store w) = Instant"
  shows "timers (solve_effect r w) = timers w @ [(nextHandle w, CallStartMoving)]"
  using assms by (simp add: solve_effect_def Let_def setTimer_def)

theorem dangling_timers_cancelled_witness:
  "list_all from_outside demo_events
   \<and> phase (store (run_events demo_solver demo_events (mount demo_solver))) = Solving
   \<and> timers (run_events demo_solver demo_events (mount demo_solver)) = [(0, CallStartMoving)]
   \<and> phase (store (fire 0 (run_events demo_solver demo_events (mount demo_solver)))) = Moving
   \<and> phase (store (step demo_solver (StoreAction (Restart (\<lambda>n. n)))
               (run_events demo_solver demo_events (mount demo_solver)))) = Menu
   \<and> timers (step demo_solver (StoreAction (Restart (\<lambda>n. n)))
               (run_events demo_solver demo_events (mount demo_solver))) = []
   \<and> fire 0 (step demo_solver (StoreAction (Restart (\<lambda>n. n)))
               (run_events demo_solver demo_events (mount demo_solver)))
       = step demo_solver (StoreAction (Restart (\<lambda>n. n)))
               (run_events demo_solver demo_events (mount demo_solver))"
proof -
  let ?w = "run_events demo_solver demo_events (mount demo_solver)"
  let ?r0 = "\<lparr>hasSolvedRef = False, timeoutRef = None, visualizationIntervalRef = None\<rparr>"
  let ?s1 = "initial_store\<lparr>selectedAlgorithm := Some Bfs\<rparr>"
  let ?s2 = "?s1\<lparr>phase := Solving\<rparr>"
  let ?w1 = "\<lparr>store = ?s1, refs = ?r0, timers = [], nextHandle = 0, rendered = Some (Menu, Some Bfs)\<rparr>"
  let ?w2 = "\<lparr>store = ?s2, refs = ?r0, timers = [], nextHandle = 0, rendered = Some (Menu, Some Bfs)\<rparr>"
  have ok: "list_all from_outside demo_events" by (simp add: demo_events_def)
  have i: "phase initial_store = Menu" "selectedAlgorithm initial_store = None"
    "visualizationMode initial_store = Instant"
    by (simp_all add: initial_store_def)
  have m: "mount demo_solver =
       \<lparr>store = initial_store, refs = ?r0, timers = [], nextHandle = 0, rendered = Some (Menu, None)\<rparr>"
    by (simp add: mount_def commit_def Let_def menu_effect_def solve_effect_def
        visualizing_effect_def i)
  have s1: "step demo_solver (StoreAction (SetAlgorithm Bfs)) (mount demo_solver) = ?w1"
    unfolding m
    by (simp add: step_def after_action_def setAlgorithm_def commit_def Let_def solve_effect_def i)
  have s2: "step demo_solver (StoreAction StartGame) ?w1 = commit demo_solver ?w2"
    by (simp add: step_def after_action_def startGame_def)
  have w: "?w = commit demo_solver ?w2"
    by (simp only: run_events_def demo_events_def fold_simps s1 s2)
  have c: "commit demo_solver ?w2
      = (solve_effect demo_solver ?w2)\<lparr>rendered := Some (Solving, Some Bfs)\<rparr>"
    by (simp add: commit_def Let_def menu_effect_other visualizing_effect_other solve_effect_fields)
  have t: "timers ?w = [(0, CallStartMoving)]"
    unfolding w c using solve_effect_instant[of ?w2 Bfs demo_solver] by (simp add: i)
  have p: "phase (store ?w) = Solving"
    unfolding w by (simp add: commit_phase)
  from t have f: "fire 0 ?w = run_callback CallStartMoving (clearTimer 0 ?w)"
    by (simp add: fire_def)
  note inst = dangling_timers_cancelled[of "clearTimer 0 ?w" demo_events demo_solver "\<lambda>n. n" 0]
  from inst have "phase (store (fire 0 ?w)) = Moving" unfolding f by blast
  moreover from inst ok
  have "phase (store (step demo_solver (StoreAction (Restart (\<lambda>n. n))) ?w)) = Menu"
    "timers (step demo_solver (StoreAction (Restart (\<lambda>n. n))) ?w) = []"
    "fire 0 (step demo_solver (StoreAction (Restart (\<lambda>n. n))) ?w)
       = step demo_solver (StoreAction (Restart (\<lambda>n. n))) ?w"
    by blast+
  ultimately show ?thesis using ok t p by blast
qed

text \<open>
  After \<open>restart()\<close> the session is in the menu phase; the callback of the settle timeout,
  run on that state, changes the phase to \<open>moving\<close>.
\<close>

theorem dangling_timer_counterexample:
  "phase (after_action (Restart (\<lambda>n. n)) initial_store) = Menu
   \<and> phase (startMoving (after_action (Restart (\<lambda>n. n)) initial_store)) = Moving
   \<and> startMoving (after_action (Restart (\<lambda>n. n)) initial_store)
       \<noteq> after_action (Restart (\<lambda>n. n)) initial_store"
proof -
  have r: "run_action (Restart (\<lambda>n. n)) initial_store = Inr t \<Longrightarrow> phase t = Menu" for t
    by (auto simp: restart_def Let_def bindE_Inr_iff)
  have "phase initial_store = Menu" by (simp add: initial_store_def)
  with after_action_cases[of "Restart (\<lambda>n. n)" initial_store] r
  have a: "phase (after_action (Restart (\<lambda>n. n)) initial_store) = Menu"
    by auto
  have b: "phase (startMoving (after_action (Restart (\<lambda>n. n)) initial_store)) = Moving"
    by (simp add: startMoving_def)
  from a b show ?thesis by auto
qed

end
